theory Spec2Isabelle
  imports Main
begin

section \<open>Python strings\<close>

text \<open>
  A Python \<open>str\<close> is a sequence of Unicode code points; it is modelled as the list of
  its code points, so that every string the program can receive has a model.
\<close>

type_synonym str = "nat list"

definition str_of :: "string \<Rightarrow> str" where
  "str_of s = map of_char s"

definition TAB :: nat where "TAB = 9"
definition NL :: nat where "NL = 10"
definition CR :: nat where "CR = 13"

text \<open>\<open>s.rfind(c)\<close> for a one-character \<open>c\<close>: the highest index holding \<open>c\<close>, or \<open>-1\<close>.\<close>

fun rfind_from :: "str \<Rightarrow> nat \<Rightarrow> int \<Rightarrow> int \<Rightarrow> int" where
  "rfind_from [] c i best = best"
| "rfind_from (x # xs) c i best = rfind_from xs c (i + 1) (if x = c then i else best)"

definition rfind :: "str \<Rightarrow> nat \<Rightarrow> int" where
  "rfind s c = rfind_from s c 0 (- 1)"

text \<open>
  The slice \<open>s[0:e]\<close>: a negative \<open>e\<close> counts from the end, and both ends are clamped to
  the string.
\<close>

definition slice_to :: "'a list \<Rightarrow> int \<Rightarrow> 'a list" where
  "slice_to s e =
     (let n = int (length s);
          e' = (if e < 0 then max (e + n) 0 else min e n)
      in take (nat e') s)"

section \<open>Exceptions\<close>

text \<open>
  Every \<open>raise\<close> of the source is a value of this type, and a function that can raise
  returns \<open>error + 'a\<close>. The plain \<open>Exception\<close> of the stream adapters carries its message.
\<close>

datatype error =
    LineBreakError
  | ParseCancellationException
  | AttributeError
  | IndexError
  | TypeError
  | Exception string

text \<open>
  Indexing \<open>xs[i]\<close>: a negative index counts from the end, and an index outside the
  sequence raises \<open>IndexError\<close>.
\<close>

definition subscript :: "'a list \<Rightarrow> int \<Rightarrow> error + 'a" where
  "subscript xs i =
     (if 0 \<le> i \<and> i < int (length xs) then Inr (xs ! nat i)
      else if i < 0 \<and> - int (length xs) \<le> i then Inr (xs ! nat (int (length xs) + i))
      else Inl IndexError)"

section \<open>Lines\<close>

text \<open>The line boundaries of \<open>str.splitlines\<close>.\<close>

definition is_linebreak :: "nat \<Rightarrow> bool" where
  "is_linebreak c \<longleftrightarrow> c \<in> {10, 11, 12, 13, 28, 29, 30, 133, 8232, 8233}"

fun skip_linebreak :: "str \<Rightarrow> str" where
  "skip_linebreak [] = []"
| "skip_linebreak [c] = []"
| "skip_linebreak (c # d # cs) = (if c = CR \<and> d = NL then cs else d # cs)"

text \<open>
  \<open>str.splitlines()\<close>: the loop of the interpreter. Each round takes the characters up to
  the next line boundary as one line and steps over the boundary, \<open>\r\n\<close> counting as
  one; a trailing empty string is not a line.
\<close>

function splitlines :: "str \<Rightarrow> str list" where
  "splitlines s =
     (if s = [] then []
      else takeWhile (\<lambda>c. \<not> is_linebreak c) s
           # splitlines (skip_linebreak (dropWhile (\<lambda>c. \<not> is_linebreak c) s)))"
  by pat_completeness auto
termination
proof (relation "measure length")
  show "wf (measure length)" by simp
next
  fix s :: str
  assume "s \<noteq> []"
  have "length (skip_linebreak rest) < length s" if "length rest \<le> length s" for rest
    using that \<open>s \<noteq> []\<close> by (cases rest rule: skip_linebreak.cases) auto
  then have "length (skip_linebreak (dropWhile (\<lambda>c. \<not> is_linebreak c) s)) < length s"
    using length_dropWhile_le by blast
  then show "(skip_linebreak (dropWhile (\<lambda>c. \<not> is_linebreak c) s), s) \<in> measure length"
    by simp
qed

declare splitlines.simps [simp del]

text \<open>\<open>Line.make\<close> with \<open>Line._setup\<close>.\<close>

record line =
  content :: str

definition Line_make :: "str \<Rightarrow> error + line" where
  "Line_make text =
     (let lines = splitlines text in
      if length lines = 1 then Inr \<lparr>content = lines ! 0\<rparr>
      else if length lines = 0 then Inr \<lparr>content = []\<rparr>
      else Inl LineBreakError)"

text \<open>
  The words of the specification: the number of line breaks in a string (\<open>\r\n\<close> is
  one), its line terminator (a line break at its very end), and the string without it.
\<close>

fun line_breaks :: "str \<Rightarrow> nat" where
  "line_breaks [] = 0"
| "line_breaks [c] = (if is_linebreak c then 1 else 0)"
| "line_breaks (c # d # cs) =
     (if c = CR \<and> d = NL then 1 + line_breaks cs
      else if is_linebreak c then 1 + line_breaks (d # cs)
      else line_breaks (d # cs))"

definition line_terminator :: "str \<Rightarrow> str" where
  "line_terminator s =
     (if 2 \<le> length s \<and> drop (length s - 2) s = [CR, NL] then [CR, NL]
      else if s \<noteq> [] \<and> is_linebreak (last s) then [last s]
      else [])"

definition without_terminator :: "str \<Rightarrow> str" where
  "without_terminator s = take (length s - length (line_terminator s)) s"

lemma is_linebreak_CR: "is_linebreak CR" and is_linebreak_NL: "is_linebreak NL"
  by (simp_all add: is_linebreak_def CR_def NL_def)

lemma splitlines_Nil: "splitlines [] = []"
  by (subst splitlines.simps) simp

lemma splitlines_Nil_iff: "splitlines s = [] \<longleftrightarrow> s = []"
  by (subst splitlines.simps) simp

lemma skip_linebreak_Nil_iff:
  "skip_linebreak t = [] \<longleftrightarrow> t = [] \<or> (\<exists>c. t = [c]) \<or> t = [CR, NL]"
  by (cases t rule: skip_linebreak.cases) auto

lemma splitlines_nonempty:
  "s \<noteq> [] \<Longrightarrow> splitlines s =
     takeWhile (\<lambda>c. \<not> is_linebreak c) s
       # splitlines (skip_linebreak (dropWhile (\<lambda>c. \<not> is_linebreak c) s))"
  by (subst splitlines.simps) simp

text \<open>The two outcomes of construction, by the shape of what follows the first line.\<close>

lemma Line_make_single:
  assumes "skip_linebreak (dropWhile (\<lambda>c. \<not> is_linebreak c) s) = []"
  shows "Line_make s = Inr \<lparr>content = takeWhile (\<lambda>c. \<not> is_linebreak c) s\<rparr>"
proof (cases "s = []")
  case True
  then show ?thesis by (simp add: Line_make_def splitlines_Nil)
next
  case False
  then have "splitlines s = [takeWhile (\<lambda>c. \<not> is_linebreak c) s]"
    using assms by (simp add: splitlines_nonempty splitlines_Nil_iff)
  then show ?thesis by (simp add: Line_make_def)
qed

lemma Line_make_several:
  assumes "skip_linebreak (dropWhile (\<lambda>c. \<not> is_linebreak c) s) \<noteq> []"
  shows "Line_make s = Inl LineBreakError"
proof -
  let ?t = "skip_linebreak (dropWhile (\<lambda>c. \<not> is_linebreak c) s)"
  from assms have "s \<noteq> []" by auto
  then have "splitlines s = takeWhile (\<lambda>c. \<not> is_linebreak c) s # splitlines ?t"
    by (rule splitlines_nonempty)
  moreover from assms obtain l ls where "splitlines ?t = l # ls"
    by (cases "splitlines ?t") (auto simp: splitlines_Nil_iff)
  ultimately show ?thesis by (simp add: Line_make_def)
qed

lemma line_terminator_body:
  assumes "\<forall>c\<in>set body. \<not> is_linebreak c"
  shows "line_terminator body = []"
    and "is_linebreak c \<Longrightarrow> line_terminator (body @ [c]) = [c]"
    and "line_terminator (body @ [CR, NL]) = [CR, NL]"
proof -
  have noCR: "CR \<notin> set body" using assms is_linebreak_CR by auto
  show "line_terminator body = []"
  proof (cases body rule: rev_cases)
    case Nil
    then show ?thesis by (simp add: line_terminator_def)
  next
    case (snoc ys y)
    then have "\<not> is_linebreak y" using assms by simp
    moreover have "drop (length body - 2) body \<noteq> [CR, NL]"
    proof
      assume "drop (length body - 2) body = [CR, NL]"
      then have "CR \<in> set (drop (length body - 2) body)" by simp
      then show False using noCR by (auto dest: in_set_dropD)
    qed
    ultimately show ?thesis using snoc by (simp add: line_terminator_def)
  qed
  show "line_terminator (body @ [c]) = [c]" if "is_linebreak c"
  proof -
    have "drop (length (body @ [c]) - 2) (body @ [c]) \<noteq> [CR, NL]"
    proof (cases body rule: rev_cases)
      case Nil
      then show ?thesis by simp
    next
      case (snoc ys y)
      then have "y \<noteq> CR" using noCR by auto
      with snoc show ?thesis by simp
    qed
    with that show ?thesis by (simp add: line_terminator_def)
  qed
  show "line_terminator (body @ [CR, NL]) = [CR, NL]"
    by (simp add: line_terminator_def)
qed

lemma without_terminator_body:
  assumes "\<forall>c\<in>set body. \<not> is_linebreak c"
  shows "without_terminator body = body"
    and "is_linebreak c \<Longrightarrow> without_terminator (body @ [c]) = body"
    and "without_terminator (body @ [CR, NL]) = body"
  using line_terminator_body [OF assms] by (simp_all add: without_terminator_def)

text \<open>A string is its first line followed by a rest that is empty or starts with a line break.\<close>

lemma first_line_cases:
  obtains body rest where "s = body @ rest"
    and "takeWhile (\<lambda>c. \<not> is_linebreak c) s = body"
    and "dropWhile (\<lambda>c. \<not> is_linebreak c) s = rest"
    and "\<forall>c\<in>set body. \<not> is_linebreak c"
    and "rest = [] \<or> is_linebreak (hd rest)"
proof -
  let ?body = "takeWhile (\<lambda>c. \<not> is_linebreak c) s"
  let ?rest = "dropWhile (\<lambda>c. \<not> is_linebreak c) s"
  have "s = ?body @ ?rest" by simp
  moreover have "\<forall>c\<in>set ?body. \<not> is_linebreak c" by (auto dest: set_takeWhileD)
  moreover have "?rest = [] \<or> is_linebreak (hd ?rest)"
    using hd_dropWhile [of "\<lambda>c. \<not> is_linebreak c" s] by auto
  ultimately show ?thesis using that by blast
qed

lemma without_terminator_single:
  assumes "skip_linebreak (dropWhile (\<lambda>c. \<not> is_linebreak c) s) = []"
  shows "without_terminator s = takeWhile (\<lambda>c. \<not> is_linebreak c) s"
proof -
  obtain body rest where s: "s = body @ rest"
    and tw: "takeWhile (\<lambda>c. \<not> is_linebreak c) s = body"
    and dw: "dropWhile (\<lambda>c. \<not> is_linebreak c) s = rest"
    and body: "\<forall>c\<in>set body. \<not> is_linebreak c"
    and rest: "rest = [] \<or> is_linebreak (hd rest)"
    by (rule first_line_cases)
  from assms dw consider "rest = []" | c where "rest = [c]" | "rest = [CR, NL]"
    by (auto simp: skip_linebreak_Nil_iff)
  then have "without_terminator (body @ rest) = body"
  proof cases
    case 1
    then show ?thesis using without_terminator_body(1) [OF body] by simp
  next
    case 2
    with rest have "is_linebreak c" by simp
    then show ?thesis using without_terminator_body(2) [OF body] 2 by simp
  next
    case 3
    then show ?thesis using without_terminator_body(3) [OF body] by simp
  qed
  then show ?thesis unfolding tw s [symmetric] .
qed

lemma line_breaks_body:
  "\<forall>c\<in>set body. \<not> is_linebreak c \<Longrightarrow> line_breaks (body @ t) = line_breaks t"
proof (induction body)
  case Nil
  then show ?case by simp
next
  case (Cons c body)
  then have c: "\<not> is_linebreak c" and IH: "line_breaks (body @ t) = line_breaks t" by auto
  from c have "c \<noteq> CR" using is_linebreak_CR by auto
  then show ?case using c IH by (cases "body @ t") auto
qed

lemma line_breaks_single:
  assumes "skip_linebreak (dropWhile (\<lambda>c. \<not> is_linebreak c) s) = []"
  shows "line_breaks s \<le> 1"
proof -
  obtain body rest where s: "s = body @ rest"
    and dw: "dropWhile (\<lambda>c. \<not> is_linebreak c) s = rest"
    and body: "\<forall>c\<in>set body. \<not> is_linebreak c"
    by (rule first_line_cases)
  from body have "line_breaks (body @ rest) = line_breaks rest" by (rule line_breaks_body)
  moreover from assms dw consider "rest = []" | c where "rest = [c]" | "rest = [CR, NL]"
    by (auto simp: skip_linebreak_Nil_iff)
  then have "line_breaks rest \<le> 1"
    by cases (simp_all add: CR_def NL_def)
  ultimately show ?thesis unfolding s by simp
qed

lemma without_terminator_several:
  assumes "skip_linebreak (dropWhile (\<lambda>c. \<not> is_linebreak c) s) \<noteq> []"
  shows "\<exists>c\<in>set (without_terminator s). is_linebreak c"
proof -
  obtain body rest where s: "s = body @ rest"
    and dw: "dropWhile (\<lambda>c. \<not> is_linebreak c) s = rest"
    and rest: "rest = [] \<or> is_linebreak (hd rest)"
    by (rule first_line_cases)
  from assms dw have skip: "skip_linebreak rest \<noteq> []" by simp
  then obtain b r where br: "rest = b # r" and r: "r \<noteq> []"
    and crlf: "\<not> (b = CR \<and> r = [NL])"
    by (cases rest rule: skip_linebreak.cases) (auto split: if_splits)
  from rest br have b: "is_linebreak b" by simp
  have tlen: "length (line_terminator (body @ b # r)) \<le> length r"
  proof (cases "drop (length (body @ b # r) - 2) (body @ b # r) = [CR, NL]")
    case True
    have "length r \<noteq> 1"
    proof
      assume "length r = 1"
      then obtain x where "r = [x]" by (cases r) auto
      with True crlf show False by simp
    qed
    with r have "2 \<le> length r" by (cases r) (auto simp: Suc_le_eq)
    then show ?thesis by (simp add: line_terminator_def)
  next
    case False
    with r show ?thesis by (cases r) (simp_all add: line_terminator_def)
  qed
  have "without_terminator (body @ b # r)
      = body @ take (Suc (length r) - length (line_terminator (body @ b # r))) (b # r)"
    using tlen by (simp add: without_terminator_def)
  also have "\<dots> = body @ b # take (length r - length (line_terminator (body @ b # r))) r"
    using tlen by (simp add: Suc_diff_le)
  finally have "b \<in> set (without_terminator (body @ b # r))" by simp
  with b show ?thesis unfolding s br by blast
qed

text \<open>
  C8, as the specification states it: construction fails exactly when the string has more
  than one line break. The string \<open>a\nb\<close> has one line break, and construction fails.
\<close>

theorem Line_make_one_break_counterexample:
  "\<not> 1 < line_breaks (str_of ''a'' @ [NL] @ str_of ''b'')
   \<and> Line_make (str_of ''a'' @ [NL] @ str_of ''b'') = Inl LineBreakError"
  by (simp add: Line_make_def splitlines.simps str_of_def NL_def CR_def is_linebreak_def)

text \<open>
  C8, amended: \<open>Line.make\<close> fails with \<open>LineBreakError\<close> exactly when a line break occurs
  before the line terminator of the string, that is, when something follows a line break;
  every string with more than one line break is such a string. For every other string it
  succeeds, and the content is the string without its line terminator.
\<close>

theorem Line_make_single_line:
  "(Line_make s = Inl LineBreakError \<longleftrightarrow> (\<exists>c\<in>set (without_terminator s). is_linebreak c))
   \<and> ((\<forall>c\<in>set (without_terminator s). \<not> is_linebreak c)
        \<longrightarrow> Line_make s = Inr \<lparr>content = without_terminator s\<rparr>)
   \<and> (1 < line_breaks s \<longrightarrow> Line_make s = Inl LineBreakError)"
proof (cases "skip_linebreak (dropWhile (\<lambda>c. \<not> is_linebreak c) s) = []")
  case True
  have body: "\<forall>c\<in>set (takeWhile (\<lambda>c. \<not> is_linebreak c) s). \<not> is_linebreak c"
    by (auto dest: set_takeWhileD)
  from True show ?thesis
    using Line_make_single [OF True] without_terminator_single [OF True]
      line_breaks_single [OF True] body
    by auto
next
  case False
  then show ?thesis
    using Line_make_several [OF False] without_terminator_several [OF False] by auto
qed

theorem Line_make_single_line_witness:
  "without_terminator (str_of ''all:'' @ [NL]) = str_of ''all:''
   \<and> Line_make (str_of ''all:'' @ [NL]) = Inr \<lparr>content = str_of ''all:''\<rparr>
   \<and> 1 < line_breaks (str_of ''a'' @ [CR, NL, NL])
   \<and> Line_make (str_of ''a'' @ [CR, NL, NL]) = Inl LineBreakError"
proof -
  have w: "without_terminator (str_of ''all:'' @ [NL]) = str_of ''all:''"
    by (simp add: without_terminator_def line_terminator_def str_of_def NL_def CR_def
        is_linebreak_def)
  have h: "\<forall>c\<in>set (without_terminator (str_of ''all:'' @ [NL])). \<not> is_linebreak c"
    unfolding w by (simp add: str_of_def is_linebreak_def)
  have b: "1 < line_breaks (str_of ''a'' @ [CR, NL, NL])"
    by (simp add: str_of_def NL_def CR_def is_linebreak_def)
  from Line_make_single_line [of "str_of ''all:'' @ [NL]"] h w
    Line_make_single_line [of "str_of ''a'' @ [CR, NL, NL]"] b
  show ?thesis by simp
qed

section \<open>The file-section filter\<close>

text \<open>
  The sources hold two classes named \<open>FileSectionFilter\<close>: the one of
  \<open>autorecurse/gnumake/grammar/filter.py\<close>, with four states, and the one of
  \<open>lib/generics.py\<close>, with three. States and labels are integer constants in the source
  and the transition table is a dictionary keyed by (state, label); the table has an entry
  for every pair, so it is a total function here.
\<close>

datatype label = START | END | LINE

definition START_LINE :: line where
  "START_LINE = \<lparr>content = str_of ''# Files''\<rparr>"

definition END_LINE :: line where
  "END_LINE = \<lparr>content = str_of ''# files hash-table stats:''\<rparr>"

subsection \<open>\<open>filter.py\<close>\<close>

datatype state = NO_PRINTING | PRINTING | BEFORE_PRINTING | FINISHED

fun TRANSITIONS :: "state \<Rightarrow> label \<Rightarrow> state" where
  "TRANSITIONS NO_PRINTING START = BEFORE_PRINTING"
| "TRANSITIONS PRINTING START = PRINTING"
| "TRANSITIONS BEFORE_PRINTING START = PRINTING"
| "TRANSITIONS FINISHED START = FINISHED"
| "TRANSITIONS NO_PRINTING END = NO_PRINTING"
| "TRANSITIONS PRINTING END = FINISHED"
| "TRANSITIONS BEFORE_PRINTING END = NO_PRINTING"
| "TRANSITIONS FINISHED END = FINISHED"
| "TRANSITIONS NO_PRINTING LINE = NO_PRINTING"
| "TRANSITIONS PRINTING LINE = PRINTING"
| "TRANSITIONS BEFORE_PRINTING LINE = PRINTING"
| "TRANSITIONS FINISHED LINE = FINISHED"

definition FileSectionFilter_make :: state where
  "FileSectionFilter_make = NO_PRINTING"

definition do_transition :: "state \<Rightarrow> label \<Rightarrow> state" where
  "do_transition s transition_label = TRANSITIONS s transition_label"

definition set_current_item :: "state \<Rightarrow> line \<Rightarrow> state" where
  "set_current_item s v =
     (if content v = content START_LINE then do_transition s START
      else if content v = content END_LINE then do_transition s END
      else do_transition s LINE)"

definition condition :: "state \<Rightarrow> bool" where
  "condition s \<longleftrightarrow> s = PRINTING"

subsection \<open>\<open>generics.py\<close>\<close>

datatype generics_state = G_NO_PRINTING | G_PRINTING | G_BEFORE_PRINTING

fun generics_TRANSITIONS :: "generics_state \<Rightarrow> label \<Rightarrow> generics_state" where
  "generics_TRANSITIONS G_NO_PRINTING START = G_BEFORE_PRINTING"
| "generics_TRANSITIONS G_PRINTING START = G_PRINTING"
| "generics_TRANSITIONS G_BEFORE_PRINTING START = G_PRINTING"
| "generics_TRANSITIONS G_NO_PRINTING END = G_NO_PRINTING"
| "generics_TRANSITIONS G_PRINTING END = G_NO_PRINTING"
| "generics_TRANSITIONS G_BEFORE_PRINTING END = G_NO_PRINTING"
| "generics_TRANSITIONS G_NO_PRINTING LINE = G_NO_PRINTING"
| "generics_TRANSITIONS G_PRINTING LINE = G_PRINTING"
| "generics_TRANSITIONS G_BEFORE_PRINTING LINE = G_PRINTING"

definition generics_make :: generics_state where
  "generics_make = G_NO_PRINTING"

definition generics_do_transition :: "generics_state \<Rightarrow> label \<Rightarrow> generics_state" where
  "generics_do_transition s transition_label = generics_TRANSITIONS s transition_label"

text \<open>Here the lines themselves are compared; \<open>Line.__eq__\<close> compares the contents.\<close>

definition generics_set_current_item :: "generics_state \<Rightarrow> line \<Rightarrow> generics_state" where
  "generics_set_current_item s v =
     (if content START_LINE = content v then generics_do_transition s START
      else if content END_LINE = content v then generics_do_transition s END
      else generics_do_transition s LINE)"

definition generics_condition :: "generics_state \<Rightarrow> bool" where
  "generics_condition s \<longleftrightarrow> s = G_PRINTING"

subsection \<open>The condition filter\<close>

text \<open>
  Modelled from the spec: \<open>ConditionFilter\<close> of \<open>autorecurse.lib.stream\<close> is not among the
  sources. The specification has it present each source item to the condition object, read
  the verdict, and forward the item exactly when the verdict is true. The condition object
  is given by its state, its \<open>current_item\<close> setter and its \<open>condition\<close> property; the result
  is the list of the items forwarded.
\<close>

fun ConditionFilter :: "('s \<Rightarrow> 'a \<Rightarrow> 's) \<Rightarrow> ('s \<Rightarrow> bool) \<Rightarrow> 's \<Rightarrow> 'a list \<Rightarrow> 'a list" where
  "ConditionFilter setter verdict s [] = []"
| "ConditionFilter setter verdict s (x # xs) =
     (let s' = setter s x
      in (if verdict s' then [x] else []) @ ConditionFilter setter verdict s' xs)"

definition file_section :: "state \<Rightarrow> line list \<Rightarrow> line list" where
  "file_section = ConditionFilter set_current_item condition"

definition generics_file_section :: "generics_state \<Rightarrow> line list \<Rightarrow> line list" where
  "generics_file_section = ConditionFilter generics_set_current_item generics_condition"

lemma ConditionFilter_append:
  "ConditionFilter setter verdict s (xs @ ys) =
     ConditionFilter setter verdict s xs
       @ ConditionFilter setter verdict (foldl setter s xs) ys"
  by (induction xs arbitrary: s) (simp_all add: Let_def)

lemma START_LINE_neq_END_LINE: "content START_LINE \<noteq> content END_LINE"
  by (simp add: START_LINE_def END_LINE_def str_of_def)

lemma line_eq_iff: "(v :: line) = w \<longleftrightarrow> content v = content w"
  by (cases v, cases w) simp

subsubsection \<open>Steps of the four-state filter\<close>

lemma set_current_item_START: "set_current_item s START_LINE = TRANSITIONS s START"
  by (simp add: set_current_item_def do_transition_def)

lemma set_current_item_END: "set_current_item s END_LINE = TRANSITIONS s END"
  using START_LINE_neq_END_LINE by (simp add: set_current_item_def do_transition_def)

lemma set_current_item_not_START:
  "v \<noteq> START_LINE \<Longrightarrow> set_current_item NO_PRINTING v = NO_PRINTING"
  by (simp add: set_current_item_def do_transition_def line_eq_iff)

lemma set_current_item_not_END:
  "v \<noteq> END_LINE \<Longrightarrow> s = BEFORE_PRINTING \<or> s = PRINTING \<Longrightarrow> set_current_item s v = PRINTING"
  by (auto simp: set_current_item_def do_transition_def line_eq_iff)

lemma set_current_item_FINISHED: "set_current_item FINISHED v = FINISHED"
  by (simp add: set_current_item_def do_transition_def)

lemma file_section_before_start:
  "START_LINE \<notin> set pre \<Longrightarrow>
     file_section NO_PRINTING pre = [] \<and> foldl set_current_item NO_PRINTING pre = NO_PRINTING"
  by (induction pre) (auto simp: file_section_def set_current_item_not_START condition_def)

lemma file_section_inside:
  "END_LINE \<notin> set body \<Longrightarrow> s = BEFORE_PRINTING \<or> s = PRINTING \<Longrightarrow>
     file_section s body = body
     \<and> foldl set_current_item s body = (if body = [] then s else PRINTING)"
proof (induction body arbitrary: s)
  case Nil
  then show ?case by (simp add: file_section_def)
next
  case (Cons v body)
  then have step: "set_current_item s v = PRINTING"
    by (intro set_current_item_not_END) auto
  from Cons have "file_section PRINTING body = body
      \<and> foldl set_current_item PRINTING body = (if body = [] then PRINTING else PRINTING)"
    by (intro Cons.IH) auto
  with step show ?case by (simp add: file_section_def condition_def)
qed

lemma file_section_finished: "file_section FINISHED rest = []"
  by (induction rest) (simp_all add: file_section_def set_current_item_FINISHED condition_def)

subsubsection \<open>Steps of the three-state filter\<close>

lemma generics_set_current_item_START:
  "generics_set_current_item s START_LINE = generics_TRANSITIONS s START"
  by (simp add: generics_set_current_item_def generics_do_transition_def)

lemma generics_set_current_item_END:
  "generics_set_current_item s END_LINE = generics_TRANSITIONS s END"
  using START_LINE_neq_END_LINE
  by (simp add: generics_set_current_item_def generics_do_transition_def)

lemma generics_set_current_item_not_START:
  "v \<noteq> START_LINE \<Longrightarrow> generics_set_current_item G_NO_PRINTING v = G_NO_PRINTING"
  by (auto simp: generics_set_current_item_def generics_do_transition_def line_eq_iff)

lemma generics_set_current_item_not_END:
  "v \<noteq> END_LINE \<Longrightarrow> s = G_BEFORE_PRINTING \<or> s = G_PRINTING \<Longrightarrow>
     generics_set_current_item s v = G_PRINTING"
  by (auto simp: generics_set_current_item_def generics_do_transition_def line_eq_iff)

lemma generics_file_section_before_start:
  "START_LINE \<notin> set pre \<Longrightarrow>
     generics_file_section G_NO_PRINTING pre = []
     \<and> foldl generics_set_current_item G_NO_PRINTING pre = G_NO_PRINTING"
  by (induction pre)
    (auto simp: generics_file_section_def generics_set_current_item_not_START
      generics_condition_def)

lemma generics_file_section_inside:
  "END_LINE \<notin> set body \<Longrightarrow> s = G_BEFORE_PRINTING \<or> s = G_PRINTING \<Longrightarrow>
     generics_file_section s body = body
     \<and> foldl generics_set_current_item s body = (if body = [] then s else G_PRINTING)"
proof (induction body arbitrary: s)
  case Nil
  then show ?case by (simp add: generics_file_section_def)
next
  case (Cons v body)
  then have step: "generics_set_current_item s v = G_PRINTING"
    by (intro generics_set_current_item_not_END) auto
  from Cons have "generics_file_section G_PRINTING body = body
      \<and> foldl generics_set_current_item G_PRINTING body
          = (if body = [] then G_PRINTING else G_PRINTING)"
    by (intro Cons.IH) auto
  with step show ?case by (simp add: generics_file_section_def generics_condition_def)
qed

text \<open>
  C5, as the specification states it, on the three-state filter of \<open>generics.py\<close>: after the
  end anchor has been received while the filter was forwarding, a later \<open># Files\<close> line opens
  it again, and the line after that is forwarded.
\<close>

theorem generics_file_section_reopens_counterexample:
  "generics_file_section generics_make
     [START_LINE, \<lparr>content = str_of ''a:''\<rparr>, END_LINE, START_LINE, \<lparr>content = str_of ''b:''\<rparr>]
   = [\<lparr>content = str_of ''a:''\<rparr>, \<lparr>content = str_of ''b:''\<rparr>]"
  by (simp add: generics_file_section_def generics_make_def generics_set_current_item_def
      generics_do_transition_def generics_condition_def START_LINE_def END_LINE_def str_of_def)

text \<open>
  C5, amended. Both filters drop every line up to and including the first \<open># Files\<close> line
  and forward the lines after it up to the end anchor. With the filter of \<open>filter.py\<close>, once
  the end anchor \<open># files hash-table stats:\<close> has been received while the filter was
  forwarding, no later line of any input is forwarded; a later \<open># Files\<close> line does not
  reopen it. The filter of \<open>generics.py\<close> returns to its initial state at the end anchor and
  treats what follows as a fresh input.
\<close>

theorem file_section_bracket:
  assumes "START_LINE \<notin> set pre" and "END_LINE \<notin> set body" and "body \<noteq> []"
  shows "file_section FileSectionFilter_make (pre @ [START_LINE]) = []
    \<and> file_section FileSectionFilter_make (pre @ START_LINE # body) = body
    \<and> file_section FileSectionFilter_make (pre @ START_LINE # body @ END_LINE # rest) = body
    \<and> generics_file_section generics_make (pre @ [START_LINE]) = []
    \<and> generics_file_section generics_make (pre @ START_LINE # body) = body
    \<and> generics_file_section generics_make (pre @ START_LINE # body @ END_LINE # rest)
        = body @ generics_file_section generics_make rest"
proof -
  note pre = file_section_before_start [OF assms(1)]
  note inside = file_section_inside [OF assms(2), of BEFORE_PRINTING]
  have 1: "file_section NO_PRINTING (pre @ [START_LINE]) = []"
    using pre
    by (simp add: file_section_def ConditionFilter_append set_current_item_START condition_def)
  have 2: "file_section NO_PRINTING (pre @ START_LINE # body) = body"
    using pre inside
    by (simp add: file_section_def ConditionFilter_append set_current_item_START condition_def)
  have 3: "file_section NO_PRINTING (pre @ START_LINE # body @ END_LINE # rest) = body"
    using pre inside assms(3) file_section_finished [of rest]
    by (simp add: file_section_def ConditionFilter_append set_current_item_START
        set_current_item_END condition_def)
  note gpre = generics_file_section_before_start [OF assms(1)]
  note ginside = generics_file_section_inside [OF assms(2), of G_BEFORE_PRINTING]
  have 4: "generics_file_section G_NO_PRINTING (pre @ [START_LINE]) = []"
    using gpre
    by (simp add: generics_file_section_def ConditionFilter_append
        generics_set_current_item_START generics_condition_def)
  have 5: "generics_file_section G_NO_PRINTING (pre @ START_LINE # body) = body"
    using gpre ginside
    by (simp add: generics_file_section_def ConditionFilter_append
        generics_set_current_item_START generics_condition_def)
  have 6: "generics_file_section G_NO_PRINTING (pre @ START_LINE # body @ END_LINE # rest)
      = body @ generics_file_section G_NO_PRINTING rest"
    using gpre ginside assms(3)
    by (simp add: generics_file_section_def ConditionFilter_append
        generics_set_current_item_START generics_set_current_item_END generics_condition_def)
  from 1 2 3 4 5 6 show ?thesis
    by (simp add: FileSectionFilter_make_def generics_make_def)
qed

theorem file_section_bracket_witness:
  "file_section FileSectionFilter_make
     [\<lparr>content = str_of ''# Make data base''\<rparr>, START_LINE, \<lparr>content = str_of ''all:''\<rparr>,
      END_LINE, START_LINE, \<lparr>content = str_of ''late:''\<rparr>]
   = [\<lparr>content = str_of ''all:''\<rparr>]
   \<and> generics_file_section generics_make
     [\<lparr>content = str_of ''# Make data base''\<rparr>, START_LINE, \<lparr>content = str_of ''all:''\<rparr>,
      END_LINE, START_LINE, \<lparr>content = str_of ''late:''\<rparr>]
   = [\<lparr>content = str_of ''all:''\<rparr>, \<lparr>content = str_of ''late:''\<rparr>]"
proof -
  have a: "START_LINE \<notin> set [\<lparr>content = str_of ''# Make data base''\<rparr>]"
    by (simp add: START_LINE_def str_of_def)
  have b: "END_LINE \<notin> set [\<lparr>content = str_of ''all:''\<rparr>]"
    by (simp add: END_LINE_def str_of_def)
  have c: "[\<lparr>content = str_of ''all:''\<rparr>] \<noteq> []"
    by simp
  have d: "generics_file_section generics_make [START_LINE, \<lparr>content = str_of ''late:''\<rparr>]
      = [\<lparr>content = str_of ''late:''\<rparr>]"
    by (simp add: generics_file_section_def generics_make_def generics_set_current_item_def
        generics_do_transition_def generics_condition_def START_LINE_def END_LINE_def str_of_def)
  from file_section_bracket [OF a b c, of "[START_LINE, \<lparr>content = str_of ''late:''\<rparr>]"] d
  show ?thesis by simp
qed

section \<open>Recipe lines\<close>

text \<open>\<open>ParseContextTargetBuilder._trim_recipe_line\<close>.\<close>

definition trim_recipe_line :: "str \<Rightarrow> str" where
  "trim_recipe_line recipe_line =
     (let remove_count0 = (0::int);
          remove_count1 =
            (if rfind recipe_line TAB + 1 + remove_count0 = int (length recipe_line)
             then remove_count0 + 1 else remove_count0);
          remove_count2 =
            (if rfind recipe_line NL + 1 + remove_count1 = int (length recipe_line)
             then remove_count1 + 1 else remove_count1);
          end_index = int (length recipe_line) - remove_count2
      in slice_to recipe_line end_index)"

text \<open>
  The recipe trim law in the words of the specification: drop one trailing tab if the text
  ends in a tab, then drop one trailing newline if what is left ends in a newline.
\<close>

definition drop_trailing :: "nat \<Rightarrow> str \<Rightarrow> str" where
  "drop_trailing c s = (if s \<noteq> [] \<and> last s = c then butlast s else s)"

definition recipe_trim_law :: "str \<Rightarrow> str" where
  "recipe_trim_law T = drop_trailing NL (drop_trailing TAB T)"

lemma rfind_from_snoc:
  "rfind_from (xs @ [x]) c i best =
     (if x = c then i + int (length xs) else rfind_from xs c i best)"
  by (induction xs arbitrary: i best) (auto simp: algebra_simps)

lemma rfind_snoc:
  "rfind (xs @ [x]) c = (if x = c then int (length xs) else rfind xs c)"
  by (simp add: rfind_def rfind_from_snoc)

lemma rfind_Nil: "rfind [] c = - 1"
  by (simp add: rfind_def)

lemma rfind_from_bounds:
  "- 1 \<le> best \<Longrightarrow> best < i \<Longrightarrow> - 1 \<le> rfind_from s c i best \<and> rfind_from s c i best < i + int (length s)"
proof (induction s arbitrary: i best)
  case Nil
  then show ?case by simp
next
  case (Cons x s)
  have "- 1 \<le> (if x = c then i else best)" and "(if x = c then i else best) < i + 1"
    using Cons.prems by auto
  from Cons.IH [OF this] show ?case by simp
qed

lemma rfind_bounds: "- 1 \<le> rfind s c \<and> rfind s c < int (length s)"
  using rfind_from_bounds [of "- 1" 0 s c] by (simp add: rfind_def)

lemma rfind_last:
  "rfind s c + 1 = int (length s) \<longleftrightarrow> s = [] \<or> last s = c"
proof (cases s rule: rev_cases)
  case Nil
  then show ?thesis by (simp add: rfind_Nil)
next
  case (snoc xs x)
  then show ?thesis using rfind_bounds [of xs c] by (auto simp: rfind_snoc)
qed

lemma trim_recipe_line_no_tab:
  assumes "x \<noteq> TAB"
  shows "trim_recipe_line (xs @ [x]) = (if x = NL then xs else xs @ [x])"
proof -
  have c1: "rfind (xs @ [x]) TAB + 1 \<noteq> int (length (xs @ [x]))"
    using assms rfind_last [of "xs @ [x]" TAB] by simp
  have c2: "rfind (xs @ [x]) NL + 1 = int (length (xs @ [x])) \<longleftrightarrow> x = NL"
    using rfind_last [of "xs @ [x]" NL] by simp
  show ?thesis
    using c1 c2 by (simp add: trim_recipe_line_def slice_to_def)
qed

lemma trim_recipe_line_tab:
  "trim_recipe_line (xs @ [TAB]) = (if xs \<noteq> [] \<and> last xs = NL then butlast xs else xs)"
proof -
  have c1: "rfind (xs @ [TAB]) TAB + 1 = int (length (xs @ [TAB]))"
    using rfind_last [of "xs @ [TAB]" TAB] by simp
  have "rfind (xs @ [TAB]) NL = rfind xs NL"
    by (simp add: rfind_snoc TAB_def NL_def)
  then have c2: "rfind (xs @ [TAB]) NL + 1 + 1 = int (length (xs @ [TAB])) \<longleftrightarrow> xs = [] \<or> last xs = NL"
    using rfind_last [of xs NL] by (simp add: add.commute)
  show ?thesis
  proof (cases "xs = [] \<or> last xs = NL")
    case True
    then have "trim_recipe_line (xs @ [TAB]) = slice_to (xs @ [TAB]) (int (length (xs @ [TAB])) - 2)"
      using c1 c2 by (simp add: trim_recipe_line_def)
    also have "\<dots> = butlast xs"
      by (cases xs rule: rev_cases) (simp_all add: slice_to_def)
    finally show ?thesis using True by auto
  next
    case False
    then have "trim_recipe_line (xs @ [TAB]) = slice_to (xs @ [TAB]) (int (length (xs @ [TAB])) - 1)"
      using c1 c2 by (simp add: trim_recipe_line_def)
    also have "\<dots> = xs"
      by (simp add: slice_to_def)
    finally show ?thesis using False by auto
  qed
qed

text \<open>
  C4. For every recipe-line string \<open>T\<close>, \<open>_trim_recipe_line\<close> returns \<open>T\<close> with at most one
  trailing tab removed and then at most one trailing newline removed (the tab is looked for
  first); no other character changes. The two bogus matches of the source, where \<open>rfind\<close>
  returns \<open>-1\<close> on the empty string and on the lone tab, are absorbed by the slice with a
  negative end.
\<close>

theorem trim_recipe_line_law: "trim_recipe_line T = recipe_trim_law T"
proof (cases T rule: rev_cases)
  case Nil
  then show ?thesis
    by (simp add: trim_recipe_line_def recipe_trim_law_def drop_trailing_def rfind_Nil slice_to_def)
next
  case (snoc xs x)
  show ?thesis
  proof (cases "x = TAB")
    case True
    with snoc show ?thesis
      by (simp add: trim_recipe_line_tab recipe_trim_law_def drop_trailing_def)
  next
    case False
    with snoc show ?thesis
      by (simp add: trim_recipe_line_no_tab recipe_trim_law_def drop_trailing_def)
  qed
qed

section \<open>Makefile locators\<close>

text \<open>
  \<open>PriorityMakefileLocator\<close>: the dictionary \<open>_priorities\<close> is a map from names to
  integers; the two loops are recursions over the list they iterate.
\<close>

type_synonym priorities = "str \<rightharpoonup> int"

fun set_filename_priorities_loop :: "str list \<Rightarrow> int \<Rightarrow> priorities \<Rightarrow> priorities" where
  "set_filename_priorities_loop [] index priorities = priorities"
| "set_filename_priorities_loop (name # names) index priorities =
     set_filename_priorities_loop names (index - 1) (priorities(name \<mapsto> index))"

definition set_filename_priorities :: "str list \<Rightarrow> priorities" where
  "set_filename_priorities filenames =
     set_filename_priorities_loop filenames (int (length filenames)) Map.empty"

fun get_best_name_loop :: "priorities \<Rightarrow> str list \<Rightarrow> str option \<Rightarrow> int \<Rightarrow> str option" where
  "get_best_name_loop priorities [] best_name best_priority = best_name"
| "get_best_name_loop priorities (name # names) best_name best_priority =
     (case priorities name of
        None \<Rightarrow> get_best_name_loop priorities names best_name best_priority
      | Some priority \<Rightarrow>
          if best_priority < priority
          then get_best_name_loop priorities names (Some name) priority
          else get_best_name_loop priorities names best_name best_priority)"

definition get_best_name :: "priorities \<Rightarrow> str list \<Rightarrow> str option" where
  "get_best_name priorities filenames = get_best_name_loop priorities filenames None 0"

record makefile =
  exec_path :: str
  file_path :: str

text \<open>
  \<open>BaseMakefileLocator.Context.__enter__\<close>, the flat locator, on the absolute path of the
  directory and the names of the files in it.
\<close>

definition base_makefile_iterator :: "priorities \<Rightarrow> str \<Rightarrow> str list \<Rightarrow> makefile list" where
  "base_makefile_iterator priorities abs_path filenames =
     (case get_best_name priorities filenames of
        None \<Rightarrow> []
      | Some name \<Rightarrow> [\<lparr>exec_path = abs_path, file_path = name\<rparr>])"

text \<open>
  \<open>NestedMakefileLocator.Context.__enter__\<close>: \<open>os.walk\<close> visits a directory before its
  subdirectories; a directory without a match clears \<open>dirnames\<close>, which prunes its subtree;
  the root (\<open>first_directory\<close>) is never reported.
\<close>

datatype directory = Directory (dirpath: str) (filenames_of: "str list") (dirs: "directory list")

fun nested_walk :: "priorities \<Rightarrow> bool \<Rightarrow> directory \<Rightarrow> makefile list" where
  "nested_walk priorities first_directory (Directory abs_path filenames subdirs) =
     (case get_best_name priorities filenames of
        None \<Rightarrow> []
      | Some name \<Rightarrow>
          (if \<not> first_directory then [\<lparr>exec_path = abs_path, file_path = name\<rparr>] else [])
          @ concat (map (nested_walk priorities False) subdirs))"

definition nested_makefile_iterator :: "priorities \<Rightarrow> directory \<Rightarrow> makefile list" where
  "nested_makefile_iterator priorities root = nested_walk priorities True root"

lemma set_filename_priorities_loop_notin:
  "n \<notin> set names \<Longrightarrow> set_filename_priorities_loop names k p n = p n"
  by (induction names arbitrary: k p) auto

lemma set_filename_priorities_loop_nth:
  "distinct names \<Longrightarrow> i < length names \<Longrightarrow>
     set_filename_priorities_loop names k p (names ! i) = Some (k - int i)"
proof (induction names arbitrary: k p i)
  case Nil
  then show ?case by simp
next
  case (Cons name names)
  show ?case
  proof (cases i)
    case 0
    with Cons.prems show ?thesis by (simp add: set_filename_priorities_loop_notin)
  next
    case (Suc j)
    with Cons.prems have "set_filename_priorities_loop names (k - 1) (p(name \<mapsto> k)) (names ! j) = Some (k - 1 - int j)"
      by (intro Cons.IH) auto
    with Suc show ?thesis by simp
  qed
qed

lemma set_filename_priorities_nth:
  "distinct names \<Longrightarrow> i < length names \<Longrightarrow>
     set_filename_priorities names (names ! i) = Some (int (length names) - int i)"
  by (simp add: set_filename_priorities_def set_filename_priorities_loop_nth)

lemma set_filename_priorities_notin:
  "n \<notin> set names \<Longrightarrow> set_filename_priorities names n = None"
  by (simp add: set_filename_priorities_def set_filename_priorities_loop_notin)

text \<open>
  What the selection loop returns: either it keeps the incoming best name, and no listed
  name has a priority above the incoming one, or it returns a listed name of maximal
  priority.
\<close>

lemma get_best_name_loop_cases:
  "(get_best_name_loop p files bn bp = bn \<and> (\<forall>f\<in>set files. \<forall>q. p f = Some q \<longrightarrow> q \<le> bp))
   \<or> (\<exists>b q. get_best_name_loop p files bn bp = Some b \<and> b \<in> set files \<and> p b = Some q \<and> bp < q
          \<and> (\<forall>f\<in>set files. \<forall>q'. p f = Some q' \<longrightarrow> q' \<le> q))"
proof (induction files arbitrary: bn bp)
  case Nil
  then show ?case by simp
next
  case (Cons f files)
  show ?case
  proof (cases "p f")
    case None
    with Cons.IH [of bn bp] show ?thesis by auto
  next
    case (Some q)
    show ?thesis
    proof (cases "bp < q")
      case True
      with Some Cons.IH [of "Some f" q] show ?thesis by (auto; force)
    next
      case False
      with Some Cons.IH [of bn bp] show ?thesis by (auto; force)
    qed
  qed
qed

lemma get_best_name_find:
  assumes "distinct names"
  shows "get_best_name (set_filename_priorities names) filenames
           = find (\<lambda>n. n \<in> set filenames) names"
proof -
  let ?p = "set_filename_priorities names"
  let ?P = "\<lambda>n. n \<in> set filenames"
  have pos: "\<And>i. i < length names \<Longrightarrow> ?p (names ! i) = Some (int (length names) - int i)"
    using assms by (rule set_filename_priorities_nth)
  from get_best_name_loop_cases [of ?p filenames None 0]
  consider (none) "get_best_name ?p filenames = None"
      "\<forall>f\<in>set filenames. \<forall>q. ?p f = Some q \<longrightarrow> q \<le> 0"
    | (some) b q where "get_best_name ?p filenames = Some b" "b \<in> set filenames"
      "?p b = Some q" "\<forall>f\<in>set filenames. \<forall>q'. ?p f = Some q' \<longrightarrow> q' \<le> q"
    by (auto simp: get_best_name_def)
  then show ?thesis
  proof cases
    case none
    have "\<not> (\<exists>n. n \<in> set names \<and> ?P n)"
    proof
      assume "\<exists>n. n \<in> set names \<and> ?P n"
      then obtain i where i: "i < length names" "names ! i \<in> set filenames"
        by (auto simp: in_set_conv_nth)
      with none(2) pos [OF i(1)] show False by force
    qed
    then have "find ?P names = None" by (simp add: find_None_iff)
    with none(1) show ?thesis by simp
  next
    case some
    from some(3) have "b \<in> set names"
      using set_filename_priorities_notin [of b names] by force
    then obtain i where i: "i < length names" "b = names ! i"
      by (auto simp: in_set_conv_nth)
    have q: "q = int (length names) - int i" using pos [OF i(1)] some(3) i(2) by simp
    have "\<forall>j<i. \<not> ?P (names ! j)"
    proof (intro allI impI notI)
      fix j assume j: "j < i" "names ! j \<in> set filenames"
      then have "?p (names ! j) = Some (int (length names) - int j)" using pos i(1) by simp
      with some(4) j(2) have "int (length names) - int j \<le> q" by blast
      with q j(1) show False by simp
    qed
    with i some(2) have "find ?P names = Some b"
      by (auto simp: find_Some_iff)
    with some(1) show ?thesis by simp
  qed
qed

text \<open>
  C2, as the specification states it: a name later in the configured list wins, so the
  list \<open>[does_not_exist, Makefile, GNUmakefile]\<close> and a directory holding \<open>Makefile\<close> and
  \<open>GNUmakefile\<close> give \<open>GNUmakefile\<close>. The code gives \<open>Makefile\<close>: \<open>set_filename_priorities\<close>
  counts the index down from the length of the list, so the first name has the highest
  priority.
\<close>

theorem get_best_name_later_wins_counterexample:
  "get_best_name
     (set_filename_priorities
        [str_of ''does_not_exist'', str_of ''Makefile'', str_of ''GNUmakefile''])
     [str_of ''Makefile'', str_of ''GNUmakefile'']
   = Some (str_of ''Makefile'')
   \<and> get_best_name
     (set_filename_priorities
        [str_of ''does_not_exist'', str_of ''Makefile'', str_of ''GNUmakefile''])
     [str_of ''Makefile'', str_of ''GNUmakefile'']
   \<noteq> Some (str_of ''GNUmakefile'')"
  by (simp add: get_best_name_def set_filename_priorities_def str_of_def)

text \<open>
  C2, amended: for a configured list of distinct names, a name earlier in the list has the
  higher priority, and \<open>_get_best_name\<close> returns the earliest configured name that the
  directory listing contains (nothing when it contains none); the flat locator reports
  exactly that name, and so does the nested locator for every directory it visits below
  the root.
\<close>

theorem get_best_name_earliest:
  assumes "distinct names"
  shows "(\<forall>i j. i < j \<longrightarrow> j < length names \<longrightarrow>
            (\<exists>pi pj. set_filename_priorities names (names ! i) = Some pi
               \<and> set_filename_priorities names (names ! j) = Some pj \<and> pj < pi))
    \<and> get_best_name (set_filename_priorities names) filenames
        = find (\<lambda>n. n \<in> set filenames) names
    \<and> base_makefile_iterator (set_filename_priorities names) abs_path filenames
        = (case find (\<lambda>n. n \<in> set filenames) names of
             None \<Rightarrow> []
           | Some name \<Rightarrow> [\<lparr>exec_path = abs_path, file_path = name\<rparr>])
    \<and> nested_walk (set_filename_priorities names) False (Directory abs_path filenames subdirs)
        = (case find (\<lambda>n. n \<in> set filenames) names of
             None \<Rightarrow> []
           | Some name \<Rightarrow> \<lparr>exec_path = abs_path, file_path = name\<rparr>
               # concat (map (nested_walk (set_filename_priorities names) False) subdirs))"
proof (intro conjI allI impI)
  fix i j :: nat
  assume "i < j" and "j < length names"
  then show "\<exists>pi pj. set_filename_priorities names (names ! i) = Some pi
      \<and> set_filename_priorities names (names ! j) = Some pj \<and> pj < pi"
    using assms by (simp add: set_filename_priorities_nth)
next
  show "get_best_name (set_filename_priorities names) filenames
      = find (\<lambda>n. n \<in> set filenames) names"
    using assms by (rule get_best_name_find)
next
  show "base_makefile_iterator (set_filename_priorities names) abs_path filenames
      = (case find (\<lambda>n. n \<in> set filenames) names of
           None \<Rightarrow> []
         | Some name \<Rightarrow> [\<lparr>exec_path = abs_path, file_path = name\<rparr>])"
    using assms by (simp add: base_makefile_iterator_def get_best_name_find)
next
  show "nested_walk (set_filename_priorities names) False (Directory abs_path filenames subdirs)
      = (case find (\<lambda>n. n \<in> set filenames) names of
           None \<Rightarrow> []
         | Some name \<Rightarrow> \<lparr>exec_path = abs_path, file_path = name\<rparr>
             # concat (map (nested_walk (set_filename_priorities names) False) subdirs))"
    using assms by (simp add: get_best_name_find split: option.split)
qed

theorem get_best_name_earliest_witness:
  "distinct [str_of ''does_not_exist'', str_of ''Makefile'', str_of ''GNUmakefile'']
   \<and> get_best_name
       (set_filename_priorities
          [str_of ''does_not_exist'', str_of ''Makefile'', str_of ''GNUmakefile''])
       [str_of ''GNUmakefile'', str_of ''Makefile'']
     = Some (str_of ''Makefile'')
   \<and> base_makefile_iterator
       (set_filename_priorities
          [str_of ''does_not_exist'', str_of ''Makefile'', str_of ''GNUmakefile''])
       (str_of ''/project'') [str_of ''GNUmakefile'', str_of ''Makefile'']
     = [\<lparr>exec_path = str_of ''/project'', file_path = str_of ''Makefile''\<rparr>]"
proof -
  have d: "distinct [str_of ''does_not_exist'', str_of ''Makefile'', str_of ''GNUmakefile'']"
    by (simp add: str_of_def)
  from get_best_name_earliest [OF d, of "[str_of ''GNUmakefile'', str_of ''Makefile'']"
      "str_of ''/project''" "[]"]
  show ?thesis using d by (simp add: str_of_def)
qed

section \<open>The target emitter\<close>

text \<open>
  The grammar (\<open>MakefileRuleParser\<close>) is not among the sources. A \<open>MakefileRuleContext\<close> is
  the data the emitter reads from it: the identifier texts of its \<open>target()\<close>,
  \<open>prerequisite()\<close> and \<open>orderOnlyPrerequisite()\<close> children and the texts of the
  \<open>RECIPE_LINE()\<close> tokens of its \<open>recipe()\<close>. A parser is the sequence of the outcomes of
  its successive \<open>declaration()\<close> calls: a declaration context, whose \<open>makefileRule()\<close> may
  be \<open>None\<close>, or a raised exception. Past the recorded outcomes the input is exhausted,
  which the grammar signals with \<open>ParseCancellationException\<close>.
\<close>

record rule_context =
  target :: "str list"
  prerequisite :: "str list"
  orderOnlyPrerequisite :: "str list"
  RECIPE_LINE :: "str list"

datatype declaration_result =
    Declaration (makefileRule: "rule_context option")
  | Raises error

type_synonym rule_parser = "declaration_result list"

definition parser_declaration :: "rule_parser \<Rightarrow> (error + rule_context option) \<times> rule_parser" where
  "parser_declaration p =
     (case p of
        [] \<Rightarrow> (Inl ParseCancellationException, [])
      | Declaration ctx # rest \<Rightarrow> (Inr ctx, rest)
      | Raises e # rest \<Rightarrow> (Inl e, rest))"

record target_record =
  path :: str
  prerequisites :: "str list"
  order_only_prerequisites :: "str list"
  recipe_lines :: "str list"
  file' :: "makefile option"

text \<open>
  \<open>ParseContextTargetBuilder.build_target\<close>. \<open>context.target(i)\<close> is \<open>None\<close> when the rule
  has no target number \<open>i\<close>, and the attribute access on it raises \<open>AttributeError\<close>, as
  does any access on a context that is \<open>None\<close>. \<open>Target.make\<close> leaves \<open>file\<close> unset (the field is \<open>file'\<close> here).
\<close>

definition build_target :: "rule_context option \<Rightarrow> int \<Rightarrow> error + target_record" where
  "build_target context target_index =
     (case context of
        None \<Rightarrow> Inl AttributeError
      | Some ctx \<Rightarrow>
          (let prereqs = prerequisite ctx;
               order_only = orderOnlyPrerequisite ctx;
               lines = map trim_recipe_line (RECIPE_LINE ctx)
           in if 0 \<le> target_index \<and> target_index < int (length (target ctx))
              then Inr \<lparr>path = target ctx ! nat target_index, prerequisites = prereqs,
                     order_only_prerequisites = order_only, recipe_lines = lines, file' = None\<rparr>
              else Inl AttributeError))"

text \<open>
  \<open>MakefileRuleParserToIteratorAdapter\<close>. The fields \<open>_parser\<close>, \<open>_makefile\<close>, \<open>_index\<close>,
  \<open>_target\<close>, \<open>_context\<close> and \<open>_is_at_end\<close> carry the prefix \<open>f_\<close>.
\<close>

record emitter =
  f_parser :: rule_parser
  f_makefile :: "makefile option"
  f_index :: int
  f_target :: "target_record option"
  f_context :: "rule_context option"
  f_is_at_end :: bool

definition to_S :: "emitter \<Rightarrow> emitter" where
  "to_S e = e\<lparr>f_index := 0, f_target := None, f_context := None, f_is_at_end := False\<rparr>"

definition to_I :: "emitter \<Rightarrow> emitter" where
  "to_I e = e\<lparr>f_is_at_end := False\<rparr>"

definition to_E :: "emitter \<Rightarrow> emitter" where
  "to_E e = e\<lparr>f_index := 0, f_target := None, f_context := None, f_is_at_end := True\<rparr>"

text \<open>\<open>make\<close> with \<open>_setup\<close>, followed by the assignment of \<open>makefile\<close> that both factories do.\<close>

definition emitter_make :: "rule_parser \<Rightarrow> makefile option \<Rightarrow> emitter" where
  "emitter_make p mf =
     (to_S \<lparr>f_parser = p, f_makefile = None, f_index = 0, f_target = None, f_context = None,
            f_is_at_end = False\<rparr>)\<lparr>f_makefile := mf\<rparr>"

definition has_current_item :: "emitter \<Rightarrow> bool" where
  "has_current_item e \<longleftrightarrow> f_target e \<noteq> None"

definition is_at_end :: "emitter \<Rightarrow> bool" where
  "is_at_end e \<longleftrightarrow> f_is_at_end e"

definition is_at_start :: "emitter \<Rightarrow> bool" where
  "is_at_start e \<longleftrightarrow> \<not> (has_current_item e \<or> is_at_end e)"

definition current_length :: "emitter \<Rightarrow> error + int" where
  "current_length e =
     (if is_at_start e then Inr 0
      else if has_current_item e then
        (case f_context e of
           None \<Rightarrow> Inl AttributeError
         | Some ctx \<Rightarrow> Inr (int (length (target ctx))))
      else Inr 0)"

text \<open>The \<open>try\<close> catches \<open>ParseCancellationException\<close> and nothing else.\<close>

definition get_next_context :: "emitter \<Rightarrow> error + emitter" where
  "get_next_context e =
     (case parser_declaration (f_parser e) of
        (Inl x, p') \<Rightarrow>
          if x = ParseCancellationException then Inr (to_E (e\<lparr>f_parser := p'\<rparr>))
          else Inl x
      | (Inr ctx, p') \<Rightarrow> Inr (e\<lparr>f_parser := p', f_context := ctx\<rparr>))"

function get_next_non_empty_context_loop :: "emitter \<Rightarrow> error + emitter" where
  "get_next_non_empty_context_loop e =
     (if \<not> (f_context e \<noteq> None \<or> is_at_end e) then
        (case get_next_context e of
           Inl x \<Rightarrow> Inl x
         | Inr e' \<Rightarrow> get_next_non_empty_context_loop e')
      else Inr e)"
  by pat_completeness auto
termination
proof (relation "measure (\<lambda>e. length (f_parser e) + (if is_at_end e then 0 else 1))")
  show "wf (measure (\<lambda>e. length (f_parser e) + (if is_at_end e then 0 else 1)))" by simp
next
  fix e e' :: emitter
  assume unfinished: "\<not> (f_context e \<noteq> None \<or> is_at_end e)"
    and step: "get_next_context e = Inr e'"
  from step have "length (f_parser e') + (if is_at_end e' then 0 else 1) \<le> length (f_parser e)"
    by (auto simp: get_next_context_def parser_declaration_def to_E_def is_at_end_def
        split: if_splits declaration_result.splits list.splits)
  with unfinished
  show "(e', e) \<in> measure (\<lambda>e. length (f_parser e) + (if is_at_end e then 0 else 1))"
    by simp
qed

declare get_next_non_empty_context_loop.simps [simp del]

definition get_next_non_empty_context :: "emitter \<Rightarrow> error + emitter" where
  "get_next_non_empty_context e =
     (case get_next_context e of
        Inl x \<Rightarrow> Inl x
      | Inr e' \<Rightarrow> get_next_non_empty_context_loop e')"

definition generate_target :: "emitter \<Rightarrow> error + emitter" where
  "generate_target e =
     (case build_target (f_context e) (f_index e) of
        Inl x \<Rightarrow> Inl x
      | Inr t \<Rightarrow> Inr (e\<lparr>f_target := Some (t\<lparr>file' := f_makefile e\<rparr>)\<rparr>))"

definition get_next_target :: "emitter \<Rightarrow> error + emitter" where
  "get_next_target e =
     (case get_next_non_empty_context e of
        Inl x \<Rightarrow> Inl x
      | Inr e' \<Rightarrow>
          if \<not> is_at_end e' then
            (case generate_target e' of Inl x \<Rightarrow> Inl x | Inr e'' \<Rightarrow> Inr (to_I e''))
          else Inr e')"

definition move_to_next :: "emitter \<Rightarrow> error + emitter" where
  "move_to_next e =
     (if is_at_start e then get_next_target e
      else
        (case current_length e of
           Inl x \<Rightarrow> Inl x
         | Inr n \<Rightarrow>
             if f_index e + 1 \<noteq> n then generate_target (e\<lparr>f_index := f_index e + 1\<rparr>)
             else get_next_target (e\<lparr>f_index := 0\<rparr>)))"

definition current_item :: "emitter \<Rightarrow> target_record option" where
  "current_item e = f_target e"

text \<open>
  How many targets of the current rule are still to come; with the number of parser
  outcomes left, this is what every step of an iteration decreases.
\<close>

definition remaining_targets :: "emitter \<Rightarrow> nat" where
  "remaining_targets e =
     (case f_context e of
        None \<Rightarrow> 0
      | Some ctx \<Rightarrow> nat (int (length (target ctx)) - f_index e))"

subsection \<open>Every step consumes input\<close>

lemma get_next_context_cases:
  "get_next_context e =
     (case f_parser e of
        [] \<Rightarrow> Inr (to_E (e\<lparr>f_parser := []\<rparr>))
      | Declaration ctx # rest \<Rightarrow> Inr (e\<lparr>f_parser := rest, f_context := ctx\<rparr>)
      | Raises x # rest \<Rightarrow>
          if x = ParseCancellationException then Inr (to_E (e\<lparr>f_parser := rest\<rparr>)) else Inl x)"
  by (simp add: get_next_context_def parser_declaration_def
      split: list.splits declaration_result.splits)

lemma get_next_context_parser:
  "get_next_context e = Inr e' \<Longrightarrow>
     (is_at_end e' \<and> length (f_parser e') \<le> length (f_parser e))
     \<or> (is_at_end e' = is_at_end e \<and> length (f_parser e') < length (f_parser e))"
  by (auto simp: get_next_context_cases to_E_def is_at_end_def
      split: list.splits declaration_result.splits if_splits)

lemma get_next_non_empty_context_loop_parser:
  "get_next_non_empty_context_loop e = Inr e' \<Longrightarrow>
     length (f_parser e') \<le> length (f_parser e) \<and> (is_at_end e \<longrightarrow> e' = e)
     \<and> (f_context e' \<noteq> None \<or> is_at_end e')"
proof (induction e rule: get_next_non_empty_context_loop.induct)
  case (1 e)
  show ?case
  proof (cases "f_context e \<noteq> None \<or> is_at_end e")
    case True
    with "1.prems" show ?thesis
      by (auto simp: get_next_non_empty_context_loop.simps [of e])
  next
    case False
    with "1.prems" obtain e1 where e1: "get_next_context e = Inr e1"
      and loop: "get_next_non_empty_context_loop e1 = Inr e'"
      by (auto simp: get_next_non_empty_context_loop.simps [of e] split: sum.splits)
    from "1.IH" [OF False e1 loop] get_next_context_parser [OF e1] False
    show ?thesis by auto
  qed
qed

lemma get_next_non_empty_context_parser:
  assumes "get_next_non_empty_context e = Inr e'" and "\<not> is_at_end e'" 
  shows "length (f_parser e') < length (f_parser e)"
proof -
  from assms(1) obtain e1 where e1: "get_next_context e = Inr e1"
    and loop: "get_next_non_empty_context_loop e1 = Inr e'"
    by (auto simp: get_next_non_empty_context_def split: sum.splits)
  from get_next_non_empty_context_loop_parser [OF loop] get_next_context_parser [OF e1] assms(2)
  show ?thesis by auto
qed

lemma generate_target_frame:
  "generate_target e = Inr e' \<Longrightarrow>
     f_parser e' = f_parser e \<and> f_context e' = f_context e \<and> f_index e' = f_index e
     \<and> is_at_end e' = is_at_end e
     \<and> (\<exists>ctx. f_context e = Some ctx \<and> 0 \<le> f_index e \<and> f_index e < int (length (target ctx)))"
  by (auto simp: generate_target_def build_target_def is_at_end_def Let_def
      split: sum.splits option.splits if_splits)

lemma get_next_target_parser:
  assumes "get_next_target e = Inr e'" and "\<not> is_at_end e'"
  shows "length (f_parser e') < length (f_parser e)"
proof -
  from assms obtain e1 e2 where e1: "get_next_non_empty_context e = Inr e1"
    and n1: "\<not> is_at_end e1" and e2: "generate_target e1 = Inr e2" and e': "e' = to_I e2"
    by (auto simp: get_next_target_def split: sum.splits if_splits)
  from get_next_non_empty_context_parser [OF e1 n1] generate_target_frame [OF e2] e'
  show ?thesis by (simp add: to_I_def)
qed

lemma move_to_next_decreases:
  assumes "move_to_next e = Inr e'" and "\<not> is_at_end e'"
  shows "length (f_parser e') < length (f_parser e)
    \<or> (length (f_parser e') = length (f_parser e) \<and> remaining_targets e' < remaining_targets e)"
proof (cases "is_at_start e")
  case True
  with assms have "get_next_target e = Inr e'" by (simp add: move_to_next_def)
  from get_next_target_parser [OF this assms(2)] show ?thesis by simp
next
  case False
  with assms(1) obtain n where n: "current_length e = Inr n"
    and step: "(if f_index e + 1 \<noteq> n then generate_target (e\<lparr>f_index := f_index e + 1\<rparr>)
             else get_next_target (e\<lparr>f_index := 0\<rparr>)) = Inr e'"
    by (auto simp: move_to_next_def split: sum.splits)
  show ?thesis
  proof (cases "f_index e + 1 \<noteq> n")
    case True
    with step have "generate_target (e\<lparr>f_index := f_index e + 1\<rparr>) = Inr e'" by simp
    from generate_target_frame [OF this] show ?thesis
      by (auto simp: remaining_targets_def)
  next
    case False
    with step have "get_next_target (e\<lparr>f_index := 0\<rparr>) = Inr e'" by simp
    from get_next_target_parser [OF this assms(2)] show ?thesis by simp
  qed
qed

subsection \<open>Iterating to the end\<close>

text \<open>
  The loop of \<open>Iterator.move_to_end\<close>, \<open>while not self.is_at_end: self.move_to_next()\<close>,
  which is also the loop a \<open>for\<close> statement runs through \<open>PythonIteratorWrapper.__next__\<close>:
  the first component collects the \<open>current_item\<close> after every step that does not reach the
  end, the second is the final state, or the exception that a step raised.
\<close>

function drain :: "emitter \<Rightarrow> target_record option list \<times> (error + emitter)" where
  "drain e =
     (if is_at_end e then ([], Inr e)
      else
        (case move_to_next e of
           Inl x \<Rightarrow> ([], Inl x)
         | Inr e' \<Rightarrow>
             if is_at_end e' then ([], Inr e')
             else (current_item e' # fst (drain e'), snd (drain e'))))"
  by pat_completeness auto
termination
proof (relation "measures [\<lambda>e. length (f_parser e), remaining_targets]")
  show "wf (measures [\<lambda>e. length (f_parser e), remaining_targets])" by simp
next
  fix e e' :: emitter
  assume "move_to_next e = Inr e'" and "\<not> is_at_end e'"
  from move_to_next_decreases [OF this]
  show "(e', e) \<in> measures [\<lambda>e. length (f_parser e), remaining_targets]" by auto
next
  fix e e' :: emitter
  assume "move_to_next e = Inr e'" and "\<not> is_at_end e'"
  from move_to_next_decreases [OF this]
  show "(e', e) \<in> measures [\<lambda>e. length (f_parser e), remaining_targets]" by auto
qed

declare drain.simps [simp del]

definition move_to_end :: "emitter \<Rightarrow> error + emitter" where
  "move_to_end e = snd (drain e)"

definition emitted :: "emitter \<Rightarrow> target_record option list" where
  "emitted e = fst (drain e)"

text \<open>
  The fan-out in the words of the specification: one target per name in the header of the
  rule, in the order of the header, all with the prerequisites, order-only prerequisites
  and (trimmed) recipe lines of the rule and with the owning makefile.
\<close>

definition rule_targets :: "makefile option \<Rightarrow> rule_context \<Rightarrow> target_record list" where
  "rule_targets mf ctx =
     map (\<lambda>name. \<lparr>path = name, prerequisites = prerequisite ctx,
                  order_only_prerequisites = orderOnlyPrerequisite ctx,
                  recipe_lines = map trim_recipe_line (RECIPE_LINE ctx), file' = mf\<rparr>)
       (target ctx)"

text \<open>The parser input after the declarations: exhausted, or an exception and what follows.\<close>

definition parser_tail :: "(error \<times> rule_parser) option \<Rightarrow> rule_parser" where
  "parser_tail stop = (case stop of None \<Rightarrow> [] | Some (x, ps) \<Rightarrow> Raises x # ps)"

text \<open>What follows a step: the rest of the iteration.\<close>

definition continue :: "error + emitter \<Rightarrow> target_record option list \<times> (error + emitter)" where
  "continue r =
     (case r of
        Inl x \<Rightarrow> ([], Inl x)
      | Inr e' \<Rightarrow>
          if is_at_end e' then ([], Inr e')
          else (current_item e' # fst (drain e'), snd (drain e')))"

text \<open>The state in which an iteration ends, and what an iteration over a parser returns.\<close>

definition end_state :: "makefile option \<Rightarrow> rule_parser \<Rightarrow> emitter" where
  "end_state mf ps =
     \<lparr>f_parser = ps, f_makefile = mf, f_index = 0, f_target = None, f_context = None,
      f_is_at_end = True\<rparr>"

definition outcome :: "makefile option \<Rightarrow> (error \<times> rule_parser) option \<Rightarrow> error + emitter" where
  "outcome mf stop =
     (case stop of
        None \<Rightarrow> Inr (end_state mf [])
      | Some (x, ps) \<Rightarrow>
          if x = ParseCancellationException then Inr (end_state mf ps) else Inl x)"

definition all_targets :: "makefile option \<Rightarrow> rule_context option list \<Rightarrow> target_record option list" where
  "all_targets mf cs = concat (map (\<lambda>c. case c of None \<Rightarrow> [] | Some ctx \<Rightarrow> map Some (rule_targets mf ctx)) cs)"

text \<open>The rule \<open>a b c : d | e\<close> of the specification.\<close>

definition rule_a_b_c :: rule_context where
  "rule_a_b_c =
     \<lparr>target = [str_of ''a'', str_of ''b'', str_of ''c''], prerequisite = [str_of ''d''],
      orderOnlyPrerequisite = [str_of ''e''], RECIPE_LINE = []\<rparr>"

subsection \<open>What an iteration emits\<close>

lemma to_E_fields [simp]:
  "f_parser (to_E e) = f_parser e" "f_makefile (to_E e) = f_makefile e" "f_index (to_E e) = 0"
  "f_target (to_E e) = None" "f_context (to_E e) = None" "is_at_end (to_E e)"
  "\<not> has_current_item (to_E e)" "\<not> is_at_start (to_E e)"
  by (simp_all add: to_E_def is_at_end_def has_current_item_def is_at_start_def)

lemma drain_at_end: "is_at_end e \<Longrightarrow> drain e = ([], Inr e)"
  by (simp add: drain.simps)

lemma drain_continue: "\<not> is_at_end e \<Longrightarrow> drain e = continue (move_to_next e)"
  by (simp add: drain.simps [of e] continue_def split: sum.splits)

lemma get_next_non_empty_context_skip:
  assumes "\<not> is_at_end e" and "f_parser e = Declaration None # ps"
  shows "get_next_non_empty_context e
    = get_next_non_empty_context (e\<lparr>f_parser := ps, f_context := None\<rparr>)"
proof -
  let ?e1 = "e\<lparr>f_parser := ps, f_context := None\<rparr>"
  have "get_next_context e = Inr ?e1"
    using assms(2) by (simp add: get_next_context_cases)
  moreover have "\<not> (f_context ?e1 \<noteq> None \<or> is_at_end ?e1)"
    using assms(1) by (simp add: is_at_end_def)
  ultimately show ?thesis
    by (simp add: get_next_non_empty_context_def get_next_non_empty_context_loop.simps [of ?e1])
qed

lemma get_next_non_empty_context_rule:
  assumes "f_parser e = Declaration (Some ctx) # ps"
  shows "get_next_non_empty_context e = Inr (e\<lparr>f_parser := ps, f_context := Some ctx\<rparr>)"
  using assms
  by (simp add: get_next_non_empty_context_def get_next_context_cases
      get_next_non_empty_context_loop.simps [of "e\<lparr>f_parser := ps, f_context := Some ctx\<rparr>"])

lemma get_next_non_empty_context_stop:
  assumes "f_parser e = parser_tail stop"
  shows "get_next_non_empty_context e =
    (case stop of
       None \<Rightarrow> Inr (to_E (e\<lparr>f_parser := []\<rparr>))
     | Some (x, ps) \<Rightarrow>
         if x = ParseCancellationException then Inr (to_E (e\<lparr>f_parser := ps\<rparr>)) else Inl x)"
  using assms
  by (auto simp: get_next_non_empty_context_def get_next_context_cases parser_tail_def
      get_next_non_empty_context_loop.simps [of "to_E _"]
      split: option.splits)

lemma generate_target_at:
  assumes "f_context e = Some ctx" and "f_index e = int k" and "k < length (target ctx)"
  shows "generate_target e = Inr (e\<lparr>f_target := Some (rule_targets (f_makefile e) ctx ! k)\<rparr>)"
  using assms by (simp add: generate_target_def build_target_def rule_targets_def)

lemma get_next_target_skip:
  assumes "\<not> is_at_end e" and "f_parser e = Declaration None # ps"
  shows "get_next_target e = get_next_target (e\<lparr>f_parser := ps, f_context := None\<rparr>)"
  using get_next_non_empty_context_skip [OF assms] by (simp add: get_next_target_def)

lemma get_next_target_rule:
  assumes "\<not> is_at_end e" and "f_parser e = Declaration (Some ctx) # ps"
    and "f_index e = 0" and "target ctx \<noteq> []"
  shows "get_next_target e
    = Inr (to_I (e\<lparr>f_parser := ps, f_context := Some ctx,
             f_target := Some (rule_targets (f_makefile e) ctx ! 0)\<rparr>))"
proof -
  let ?e1 = "e\<lparr>f_parser := ps, f_context := Some ctx\<rparr>"
  have "get_next_non_empty_context e = Inr ?e1"
    using assms(2) by (rule get_next_non_empty_context_rule)
  moreover have "\<not> is_at_end ?e1" using assms(1) by (simp add: is_at_end_def)
  moreover have "generate_target ?e1
      = Inr (?e1\<lparr>f_target := Some (rule_targets (f_makefile ?e1) ctx ! 0)\<rparr>)"
    using assms(3,4) by (intro generate_target_at) simp_all
  ultimately show ?thesis by (simp add: get_next_target_def)
qed

lemma get_next_target_stop:
  assumes "f_parser e = parser_tail stop"
  shows "get_next_target e =
    (case stop of
       None \<Rightarrow> Inr (to_E (e\<lparr>f_parser := []\<rparr>))
     | Some (x, ps) \<Rightarrow>
         if x = ParseCancellationException then Inr (to_E (e\<lparr>f_parser := ps\<rparr>)) else Inl x)"
  using get_next_non_empty_context_stop [OF assms]
  by (auto simp: get_next_target_def split: option.splits)

lemma to_E_end_state: "to_E (e\<lparr>f_parser := ps\<rparr>) = end_state (f_makefile e) ps"
  by (cases e) (simp add: to_E_def end_state_def)

lemma continue_get_next_target_stop:
  assumes "f_parser e = parser_tail stop"
  shows "continue (get_next_target e) = ([], outcome (f_makefile e) stop)"
  using get_next_target_stop [OF assms]
  by (auto simp: continue_def outcome_def to_E_end_state [symmetric] split: option.splits)

text \<open>Within a rule: from target number \<open>k\<close> to the last one, then on to the next rule.\<close>

lemma drain_in_rule:
  assumes next_rule: "\<And>e0. \<not> is_at_end e0 \<Longrightarrow> f_index e0 = 0 \<Longrightarrow> f_parser e0 = ps
      \<Longrightarrow> f_makefile e0 = mf \<Longrightarrow> continue (get_next_target e0) = R"
    and "\<not> is_at_end e" and "f_parser e = ps" and "f_makefile e = mf"
    and "f_context e = Some ctx" and "f_index e = int k" and "k < length (target ctx)"
    and "f_target e \<noteq> None"
  shows "drain e = (map Some (drop (Suc k) (rule_targets mf ctx)) @ fst R, snd R)"
  using assms(2-)
proof (induction "length (target ctx) - k" arbitrary: e k)
  case 0
  then show ?case by simp
next
  case (Suc d)
  have started: "\<not> is_at_start e" using Suc.prems by (simp add: is_at_start_def has_current_item_def)
  have len: "current_length e = Inr (int (length (target ctx)))"
    using Suc.prems started by (simp add: current_length_def has_current_item_def)
  have n: "length (rule_targets mf ctx) = length (target ctx)" by (simp add: rule_targets_def)
  show ?case
  proof (cases "Suc k = length (target ctx)")
    case True
    then have "move_to_next e = get_next_target (e\<lparr>f_index := 0\<rparr>)"
      using started len Suc.prems by (simp add: move_to_next_def)
    moreover have "continue (get_next_target (e\<lparr>f_index := 0\<rparr>)) = R"
      using Suc.prems by (intro next_rule) (simp_all add: is_at_end_def)
    ultimately show ?thesis using Suc.prems True n by (simp add: drain_continue)
  next
    case False
    let ?e1 = "e\<lparr>f_index := f_index e + 1\<rparr>"
    let ?e2 = "?e1\<lparr>f_target := Some (rule_targets (f_makefile ?e1) ctx ! Suc k)\<rparr>"
    from False Suc.prems have k1: "Suc k < length (target ctx)" by simp
    have "move_to_next e = generate_target ?e1"
      using started len Suc.prems False by (auto simp: move_to_next_def)
    also have "\<dots> = Inr ?e2"
      using Suc.prems k1 by (intro generate_target_at) simp_all
    finally have step: "move_to_next e = Inr ?e2" .
    have "drain ?e2 = (map Some (drop (Suc (Suc k)) (rule_targets mf ctx)) @ fst R, snd R)"
      using Suc.hyps(2) Suc.prems k1 by (intro Suc.hyps(1)) (simp_all add: is_at_end_def)
    moreover have "\<not> is_at_end ?e2" using Suc.prems by (simp add: is_at_end_def)
    moreover have "drop (Suc k) (rule_targets mf ctx)
        = rule_targets mf ctx ! Suc k # drop (Suc (Suc k)) (rule_targets mf ctx)"
      using k1 n by (simp add: Cons_nth_drop_Suc)
    ultimately show ?thesis
      using Suc.prems step
      by (simp add: drain_continue [of e] continue_def current_item_def)
  qed
qed

lemma continue_get_next_target:
  assumes "\<forall>ctx. Some ctx \<in> set cs \<longrightarrow> target ctx \<noteq> []"
    and "\<not> is_at_end e" and "f_index e = 0" and "f_makefile e = mf"
    and "f_parser e = map Declaration cs @ parser_tail stop"
  shows "continue (get_next_target e) = (all_targets mf cs, outcome mf stop)"
  using assms
proof (induction cs arbitrary: e)
  case Nil
  then show ?case
    using continue_get_next_target_stop [of e stop] by (simp add: all_targets_def)
next
  case (Cons c cs)
  show ?case
  proof (cases c)
    case None
    let ?e1 = "e\<lparr>f_parser := map Declaration cs @ parser_tail stop, f_context := None\<rparr>"
    have "get_next_target e = get_next_target ?e1"
      using Cons.prems None by (intro get_next_target_skip) simp_all
    moreover have "continue (get_next_target ?e1) = (all_targets mf cs, outcome mf stop)"
      using Cons.prems by (intro Cons.IH) (simp_all add: is_at_end_def)
    ultimately show ?thesis using None by (simp add: all_targets_def)
  next
    case (Some ctx)
    let ?ps = "map Declaration cs @ parser_tail stop"
    let ?e1 = "to_I (e\<lparr>f_parser := ?ps, f_context := Some ctx,
                     f_target := Some (rule_targets (f_makefile e) ctx ! 0)\<rparr>)"
    from Cons.prems Some have nonempty: "target ctx \<noteq> []" by simp
    have step: "get_next_target e = Inr ?e1"
      using Cons.prems Some nonempty by (intro get_next_target_rule) simp_all
    have rest: "\<And>e0. \<not> is_at_end e0 \<Longrightarrow> f_index e0 = 0 \<Longrightarrow> f_parser e0 = ?ps
        \<Longrightarrow> f_makefile e0 = mf
        \<Longrightarrow> continue (get_next_target e0) = (all_targets mf cs, outcome mf stop)"
      using Cons.prems(1) by (intro Cons.IH) simp_all
    have "drain ?e1 = (map Some (drop (Suc 0) (rule_targets mf ctx))
        @ fst (all_targets mf cs, outcome mf stop), snd (all_targets mf cs, outcome mf stop))"
      using Cons.prems nonempty
      by (intro drain_in_rule [OF rest, where k = 0]) (simp_all add: to_I_def is_at_end_def)
    moreover have "\<not> is_at_end ?e1" by (simp add: to_I_def is_at_end_def)
    moreover have "all_targets mf (Some ctx # cs)
        = Some (rule_targets mf ctx ! 0)
            # map Some (drop (Suc 0) (rule_targets mf ctx)) @ all_targets mf cs"
    proof (cases "rule_targets mf ctx")
      case Nil
      with nonempty show ?thesis by (simp add: rule_targets_def)
    next
      case (Cons t ts)
      then show ?thesis by (simp add: all_targets_def)
    qed
    ultimately show ?thesis
      using step Some Cons.prems(4)
      by (simp add: continue_def current_item_def to_I_def)
  qed
qed

lemma drain_emitter_make:
  assumes "\<forall>ctx. Some ctx \<in> set cs \<longrightarrow> target ctx \<noteq> []"
  shows "drain (emitter_make (map Declaration cs @ parser_tail stop) mf)
    = (all_targets mf cs, outcome mf stop)"
proof -
  let ?e = "emitter_make (map Declaration cs @ parser_tail stop) mf"
  have start: "is_at_start ?e" and "\<not> is_at_end ?e"
    by (simp_all add: emitter_make_def to_S_def is_at_start_def is_at_end_def has_current_item_def)
  then have "drain ?e = continue (get_next_target ?e)"
    by (simp add: drain_continue move_to_next_def)
  also have "\<dots> = (all_targets mf cs, outcome mf stop)"
    using assms by (intro continue_get_next_target) (simp_all add: emitter_make_def to_S_def is_at_end_def)
  finally show ?thesis .
qed

subsection \<open>The end-of-input signal stays inside\<close>

lemma get_next_context_not_cancelled: "get_next_context e \<noteq> Inl ParseCancellationException"
  by (simp add: get_next_context_cases split: list.splits declaration_result.splits)

lemma get_next_non_empty_context_loop_not_cancelled:
  "get_next_non_empty_context_loop e \<noteq> Inl ParseCancellationException"
proof (induction e rule: get_next_non_empty_context_loop.induct)
  case (1 e)
  show ?case
  proof (cases "f_context e \<noteq> None \<or> is_at_end e")
    case True
    then show ?thesis by (auto simp: get_next_non_empty_context_loop.simps [of e])
  next
    case False
    show ?thesis
    proof (cases "get_next_context e")
      case (Inl x)
      with False get_next_context_not_cancelled [of e] show ?thesis
        by (simp add: get_next_non_empty_context_loop.simps [of e])
    next
      case (Inr e1)
      with False "1.IH" [OF False Inr] show ?thesis
        by (simp add: get_next_non_empty_context_loop.simps [of e])
    qed
  qed
qed

lemma generate_target_not_cancelled: "generate_target e \<noteq> Inl ParseCancellationException"
  by (simp add: generate_target_def build_target_def Let_def split: option.splits sum.splits)

lemma get_next_target_not_cancelled: "get_next_target e \<noteq> Inl ParseCancellationException"
proof (cases "get_next_context e")
  case (Inl x)
  with get_next_context_not_cancelled [of e] show ?thesis
    by (simp add: get_next_target_def get_next_non_empty_context_def)
next
  case (Inr e1)
  show ?thesis
  proof (cases "get_next_non_empty_context_loop e1")
    case (Inl x)
    with Inr get_next_non_empty_context_loop_not_cancelled [of e1] show ?thesis
      by (simp add: get_next_target_def get_next_non_empty_context_def)
  next
    case loop: (Inr e2)
    with Inr generate_target_not_cancelled [of e2] show ?thesis
      by (auto simp: get_next_target_def get_next_non_empty_context_def split: sum.splits)
  qed
qed

lemma move_to_next_not_cancelled: "move_to_next e \<noteq> Inl ParseCancellationException"
  using get_next_target_not_cancelled generate_target_not_cancelled
  by (simp add: move_to_next_def current_length_def split: sum.splits option.splits)

lemma drain_not_cancelled: "snd (drain e) \<noteq> Inl ParseCancellationException"
proof (induction e rule: drain.induct)
  case (1 e)
  show ?case
  proof (cases "is_at_end e")
    case True
    then show ?thesis by (simp add: drain_at_end)
  next
    case False
    show ?thesis
    proof (cases "move_to_next e")
      case (Inl x)
      with False move_to_next_not_cancelled [of e] show ?thesis
        by (simp add: drain.simps [of e])
    next
      case (Inr e')
      with False "1.IH" [OF False Inr] show ?thesis
        by (simp add: drain.simps [of e])
    qed
  qed
qed

text \<open>
  C6. A parser that yields the declarations \<open>cs\<close>, some of them without a rule, and then
  either runs out of input or raises, makes the emitter emit, for every rule context in
  turn, one target per name listed in the header of the rule, in the order of the header:
  as many targets as the rule lists, the path of each the text of the corresponding target
  identifier, and all of them with the prerequisite list and the order-only prerequisite
  list of the context, in source order. A rule context has at least one target.
\<close>

theorem emitter_fan_out:
  assumes "\<forall>ctx. Some ctx \<in> set cs \<longrightarrow> target ctx \<noteq> []"
  shows "emitted (emitter_make (map Declaration cs @ parser_tail stop) mf) = all_targets mf cs
    \<and> length (rule_targets mf ctx) = length (target ctx)
    \<and> map path (rule_targets mf ctx) = target ctx
    \<and> map prerequisites (rule_targets mf ctx)
        = replicate (length (target ctx)) (prerequisite ctx)
    \<and> map order_only_prerequisites (rule_targets mf ctx)
        = replicate (length (target ctx)) (orderOnlyPrerequisite ctx)"
proof -
  have "emitted (emitter_make (map Declaration cs @ parser_tail stop) mf) = all_targets mf cs"
    using drain_emitter_make [OF assms] by (simp add: emitted_def)
  moreover have "map path (rule_targets mf ctx) = target ctx"
    by (simp add: rule_targets_def comp_def)
  moreover have "map prerequisites (rule_targets mf ctx)
      = replicate (length (target ctx)) (prerequisite ctx)"
    by (simp add: rule_targets_def comp_def map_replicate_const)
  moreover have "map order_only_prerequisites (rule_targets mf ctx)
      = replicate (length (target ctx)) (orderOnlyPrerequisite ctx)"
    by (simp add: rule_targets_def comp_def map_replicate_const)
  ultimately show ?thesis by (simp add: rule_targets_def)
qed

theorem emitter_fan_out_witness:
  "emitted (emitter_make [Declaration (Some rule_a_b_c)] None)
   = [Some \<lparr>path = str_of ''a'', prerequisites = [str_of ''d''],
             order_only_prerequisites = [str_of ''e''], recipe_lines = [], file' = None\<rparr>,
      Some \<lparr>path = str_of ''b'', prerequisites = [str_of ''d''],
             order_only_prerequisites = [str_of ''e''], recipe_lines = [], file' = None\<rparr>,
      Some \<lparr>path = str_of ''c'', prerequisites = [str_of ''d''],
             order_only_prerequisites = [str_of ''e''], recipe_lines = [], file' = None\<rparr>]"
proof -
  have h: "\<forall>ctx. Some ctx \<in> set [Some rule_a_b_c] \<longrightarrow> target ctx \<noteq> []"
    by (simp add: rule_a_b_c_def)
  from emitter_fan_out [OF h, of None None rule_a_b_c]
  show ?thesis
    by (simp add: parser_tail_def all_targets_def rule_targets_def rule_a_b_c_def)
qed

text \<open>
  C7. When \<open>declaration()\<close> raises \<open>ParseCancellationException\<close>, \<open>_get_next_context\<close>
  catches it and moves the emitter to its end state, where it has no current item, and
  where iterating on changes nothing and emits nothing. No step and no iteration of the
  emitter, from any state, ends in \<open>ParseCancellationException\<close>; an iteration from the start
  over declarations followed by the signal ends normally in the end state. Every other
  exception of \<open>declaration()\<close> is passed on.
\<close>

theorem parse_cancelled_is_end:
  "get_next_context (e\<lparr>f_parser := Raises ParseCancellationException # ps\<rparr>)
     = Inr (to_E (e\<lparr>f_parser := ps\<rparr>))
   \<and> is_at_end (to_E e) \<and> \<not> has_current_item (to_E e) \<and> \<not> is_at_start (to_E e)
   \<and> (is_at_end e \<longrightarrow> move_to_end e = Inr e \<and> emitted e = [])
   \<and> move_to_next e \<noteq> Inl ParseCancellationException
   \<and> move_to_end e \<noteq> Inl ParseCancellationException
   \<and> ((\<forall>ctx. Some ctx \<in> set cs \<longrightarrow> target ctx \<noteq> []) \<longrightarrow>
        move_to_end (emitter_make (map Declaration cs @ Raises ParseCancellationException # ps) mf)
          = Inr (end_state mf ps)
        \<and> is_at_end (end_state mf ps))
   \<and> (x \<noteq> ParseCancellationException \<longrightarrow>
        get_next_context (e\<lparr>f_parser := Raises x # ps\<rparr>) = Inl x)"
proof -
  have "move_to_end (emitter_make (map Declaration cs @ Raises ParseCancellationException # ps) mf)
      = Inr (end_state mf ps)"
    if "\<forall>ctx. Some ctx \<in> set cs \<longrightarrow> target ctx \<noteq> []"
    using drain_emitter_make [OF that, of "Some (ParseCancellationException, ps)" mf]
    by (simp add: move_to_end_def parser_tail_def outcome_def)
  moreover have "is_at_end (end_state mf ps)"
    by (simp add: end_state_def is_at_end_def)
  ultimately show ?thesis
    using move_to_next_not_cancelled [of e] drain_not_cancelled [of e]
    by (simp add: get_next_context_cases move_to_end_def emitted_def drain_at_end)
qed

theorem parse_cancelled_is_end_witness:
  "move_to_end
     (emitter_make
        [Declaration (Some rule_a_b_c), Raises ParseCancellationException,
         Declaration (Some rule_a_b_c)] None)
   = Inr (end_state None [Declaration (Some rule_a_b_c)])
   \<and> move_to_end (end_state None []) = Inr (end_state None [])
   \<and> get_next_context (emitter_make [Raises AttributeError] None) = Inl AttributeError"
proof -
  have h: "\<forall>ctx. Some ctx \<in> set [Some rule_a_b_c] \<longrightarrow> target ctx \<noteq> []"
    by (simp add: rule_a_b_c_def)
  have a: "is_at_end (end_state None [])"
    by (simp add: end_state_def is_at_end_def)
  have b: "AttributeError \<noteq> ParseCancellationException"
    by simp
  have c: "(emitter_make [] None)\<lparr>f_parser := [Raises AttributeError]\<rparr>
      = emitter_make [Raises AttributeError] None"
    by (simp add: emitter_make_def to_S_def)
  from parse_cancelled_is_end [where e = "end_state None []" and ps = "[]"
      and cs = "[Some rule_a_b_c]" and mf = None and x = AttributeError]
    parse_cancelled_is_end [where e = "emitter_make [] None" and ps = "[]"
      and cs = "[Some rule_a_b_c]" and mf = None and x = AttributeError]
    parse_cancelled_is_end [where e = "emitter_make [] None"
      and ps = "[Declaration (Some rule_a_b_c)]"
      and cs = "[Some rule_a_b_c]" and mf = None and x = AttributeError]
    h a b c
  show ?thesis by simp
qed

section \<open>Iterators\<close>

subsection \<open>\<open>ListIterator\<close>\<close>

text \<open>
  \<open>ListIterator\<close> of \<open>iterator.py\<close>: the items not yet passed, the current one first, and
  the flag \<open>_is_at_start\<close>. \<open>move_to_next\<close> pops the first item, which raises \<open>IndexError\<close>
  on an empty list. The operations carry the prefix \<open>li_\<close>.
\<close>

record 'a ListIterator =
  li_list :: "'a list"
  li_is_at_start :: bool

definition ListIterator_make :: "'a list \<Rightarrow> 'a ListIterator" where
  "ListIterator_make it = \<lparr>li_list = it, li_is_at_start = True\<rparr>"

definition li_current_item :: "'a ListIterator \<Rightarrow> error + 'a" where
  "li_current_item s = subscript (li_list s) 0"

definition li_has_current_item :: "'a ListIterator \<Rightarrow> bool" where
  "li_has_current_item s \<longleftrightarrow> \<not> (li_is_at_start s \<or> length (li_list s) = 0)"

definition li_is_at_end :: "'a ListIterator \<Rightarrow> bool" where
  "li_is_at_end s \<longleftrightarrow> \<not> li_is_at_start s \<and> length (li_list s) = 0"

definition li_move_to_next :: "'a ListIterator \<Rightarrow> error + 'a ListIterator" where
  "li_move_to_next s =
     (if li_is_at_start s then Inr (s\<lparr>li_is_at_start := False\<rparr>)
      else (case li_list s of
              [] \<Rightarrow> Inl IndexError
            | x # xs \<Rightarrow> Inr (s\<lparr>li_list := xs\<rparr>)))"

subsection \<open>\<open>TokenToCharIterator\<close>\<close>

text \<open>
  A token is its type and its text; \<open>Token.EOF\<close> is \<open>-1\<close>. The iterator holds its source,
  the index into the text of the current token, and that text, which is \<open>None\<close> when there
  is no current token. The source is a \<open>ListIterator\<close> of tokens, in any of its states. The
  operations carry the prefix \<open>tc_\<close>; subscripting \<open>None\<close> raises \<open>TypeError\<close>.
\<close>

record token =
  type' :: int
  text' :: str

definition EOF :: int where
  "EOF = - 1"

record TokenToCharIterator =
  tc_source :: "token ListIterator"
  tc_index :: int
  tc_text :: "str option"

definition tc_to_E :: "TokenToCharIterator \<Rightarrow> TokenToCharIterator" where
  "tc_to_E s = s\<lparr>tc_text := None\<rparr>"

definition tc_set_text :: "TokenToCharIterator \<Rightarrow> error + TokenToCharIterator" where
  "tc_set_text s =
     (case li_current_item (tc_source s) of
        Inl x \<Rightarrow> Inl x
      | Inr tok \<Rightarrow>
          if type' tok \<noteq> EOF then Inr (s\<lparr>tc_text := Some (text' tok)\<rparr>)
          else Inr (tc_to_E s))"

definition tc_initialize :: "TokenToCharIterator \<Rightarrow> error + TokenToCharIterator" where
  "tc_initialize s =
     (if li_is_at_start (tc_source s) then Inr s
      else if li_has_current_item (tc_source s) then tc_set_text s
      else Inr s)"

definition TokenToCharIterator_make :: "token ListIterator \<Rightarrow> error + TokenToCharIterator" where
  "TokenToCharIterator_make source =
     tc_initialize \<lparr>tc_source = source, tc_index = 0, tc_text = None\<rparr>"

definition tc_current_item :: "TokenToCharIterator \<Rightarrow> error + nat" where
  "tc_current_item s =
     (case tc_text s of
        None \<Rightarrow> Inl TypeError
      | Some t \<Rightarrow> subscript t (tc_index s))"

definition tc_has_current_item :: "TokenToCharIterator \<Rightarrow> bool" where
  "tc_has_current_item s \<longleftrightarrow> tc_text s \<noteq> None"

definition tc_is_at_start :: "TokenToCharIterator \<Rightarrow> bool" where
  "tc_is_at_start s \<longleftrightarrow> li_is_at_start (tc_source s)"

definition tc_is_at_end :: "TokenToCharIterator \<Rightarrow> bool" where
  "tc_is_at_end s \<longleftrightarrow> \<not> (tc_has_current_item s \<or> tc_is_at_start s)"

definition tc_current_length :: "TokenToCharIterator \<Rightarrow> int" where
  "tc_current_length s =
     (if tc_is_at_start s then 0
      else if tc_has_current_item s then
        (case tc_text s of None \<Rightarrow> 0 | Some t \<Rightarrow> int (length t))
      else 0)"

definition tc_move_to_next_text :: "TokenToCharIterator \<Rightarrow> error + TokenToCharIterator" where
  "tc_move_to_next_text s =
     (case li_move_to_next (tc_source s) of
        Inl x \<Rightarrow> Inl x
      | Inr source' \<Rightarrow>
          (let s' = s\<lparr>tc_source := source'\<rparr>
           in if li_has_current_item source' then tc_set_text s' else Inr (tc_to_E s')))"

text \<open>What the loops over the source decrease: every step pops an item or leaves the start.\<close>

definition source_size :: "TokenToCharIterator \<Rightarrow> nat" where
  "source_size s =
     2 * length (li_list (tc_source s)) + (if li_is_at_start (tc_source s) then 1 else 0)"

function tc_move_to_next_non_blank_token_loop :: "TokenToCharIterator \<Rightarrow> error + TokenToCharIterator" where
  "tc_move_to_next_non_blank_token_loop s =
     (if tc_current_length s = 0 \<and> \<not> tc_is_at_end s then
        (case tc_move_to_next_text s of
           Inl x \<Rightarrow> Inl x
         | Inr s' \<Rightarrow> tc_move_to_next_non_blank_token_loop s')
      else Inr s)"
  by pat_completeness auto
termination
proof (relation "measure source_size")
  show "wf (measure source_size)" by simp
next
  fix s s' :: TokenToCharIterator
  assume "tc_move_to_next_text s = Inr s'"
  then have "source_size s' < source_size s"
    by (auto simp: tc_move_to_next_text_def li_move_to_next_def tc_set_text_def tc_to_E_def
        source_size_def Let_def split: sum.splits list.splits if_splits)
  then show "(s', s) \<in> measure source_size" by simp
qed

declare tc_move_to_next_non_blank_token_loop.simps [simp del]

definition tc_move_to_next_non_blank_token :: "TokenToCharIterator \<Rightarrow> error + TokenToCharIterator" where
  "tc_move_to_next_non_blank_token s =
     (case tc_move_to_next_text s of
        Inl x \<Rightarrow> Inl x
      | Inr s' \<Rightarrow> tc_move_to_next_non_blank_token_loop s')"

definition tc_move_to_next :: "TokenToCharIterator \<Rightarrow> error + TokenToCharIterator" where
  "tc_move_to_next s =
     (if tc_is_at_start s then tc_move_to_next_non_blank_token s
      else if tc_index s + 1 \<noteq> tc_current_length s then Inr (s\<lparr>tc_index := tc_index s + 1\<rparr>)
      else tc_move_to_next_non_blank_token (s\<lparr>tc_index := 0\<rparr>))"

section \<open>Reading the characters of a token iterator\<close>

text \<open>How many characters of the current token are still to come.\<close>

definition chars_remaining :: "TokenToCharIterator \<Rightarrow> nat" where
  "chars_remaining s =
     (case tc_text s of None \<Rightarrow> 0 | Some t \<Rightarrow> nat (int (length t) - tc_index s))"

subsection \<open>Every step consumes input\<close>

lemma tc_move_to_next_text_size:
  "tc_move_to_next_text s = Inr s' \<Longrightarrow> source_size s' < source_size s"
  by (auto simp: tc_move_to_next_text_def li_move_to_next_def tc_set_text_def tc_to_E_def
      source_size_def Let_def split: sum.splits list.splits if_splits)

lemma tc_move_to_next_non_blank_token_loop_size:
  "tc_move_to_next_non_blank_token_loop s = Inr s' \<Longrightarrow> source_size s' \<le> source_size s"
proof (induction s rule: tc_move_to_next_non_blank_token_loop.induct)
  case (1 s)
  show ?case
  proof (cases "tc_current_length s = 0 \<and> \<not> tc_is_at_end s")
    case True
    with "1.prems" obtain s1 where s1: "tc_move_to_next_text s = Inr s1"
      and loop: "tc_move_to_next_non_blank_token_loop s1 = Inr s'"
      by (auto simp: tc_move_to_next_non_blank_token_loop.simps [of s] split: sum.splits)
    from "1.IH" [OF True s1 loop] tc_move_to_next_text_size [OF s1] show ?thesis by simp
  next
    case False
    with "1.prems" show ?thesis
      by (auto simp: tc_move_to_next_non_blank_token_loop.simps [of s])
  qed
qed

lemma tc_move_to_next_non_blank_token_size:
  assumes "tc_move_to_next_non_blank_token s = Inr s'"
  shows "source_size s' < source_size s"
proof -
  from assms obtain s1 where s1: "tc_move_to_next_text s = Inr s1"
    and loop: "tc_move_to_next_non_blank_token_loop s1 = Inr s'"
    by (auto simp: tc_move_to_next_non_blank_token_def split: sum.splits)
  from tc_move_to_next_non_blank_token_loop_size [OF loop] tc_move_to_next_text_size [OF s1]
  show ?thesis by simp
qed

lemma tc_move_to_next_decreases:
  assumes "tc_move_to_next s = Inr s'" and "tc_current_item s = Inr c"
  shows "source_size s' < source_size s
    \<or> (source_size s' = source_size s \<and> chars_remaining s' < chars_remaining s)"
proof -
  from assms(2) obtain t where t: "tc_text s = Some t" and c: "subscript t (tc_index s) = Inr c"
    by (auto simp: tc_current_item_def split: option.splits)
  from c have "tc_index s < int (length t)"
    by (auto simp: subscript_def Let_def split: if_splits)
  then have "chars_remaining (s\<lparr>tc_index := tc_index s + 1\<rparr>) < chars_remaining s"
    using t by (simp add: chars_remaining_def)
  moreover have "source_size (s\<lparr>tc_index := i\<rparr>) = source_size s" for i
    by (simp add: source_size_def)
  ultimately show ?thesis
    using assms(1) tc_move_to_next_non_blank_token_size [of s s']
      tc_move_to_next_non_blank_token_size [of "s\<lparr>tc_index := 0\<rparr>" s']
    by (auto simp: tc_move_to_next_def split: if_splits)
qed

subsection \<open>Reading all characters\<close>

text \<open>
  The loop with which \<open>Factory.make_target_iterator_for_file\<close> reads an iterator of
  characters into a buffer: leave the start state, then, while there is a current item,
  write it and move on. The first component is what has been written, the second the final
  state of the iterator, or the exception that ended the loop.
\<close>

function write_chars :: "TokenToCharIterator \<Rightarrow> str \<times> (error + TokenToCharIterator)" where
  "write_chars s =
     (if tc_has_current_item s then
        (case tc_current_item s of
           Inl x \<Rightarrow> ([], Inl x)
         | Inr c \<Rightarrow>
             (case tc_move_to_next s of
                Inl x \<Rightarrow> ([c], Inl x)
              | Inr s' \<Rightarrow> (c # fst (write_chars s'), snd (write_chars s'))))
      else ([], Inr s))"
  by pat_completeness auto
termination
proof (relation "measures [source_size, chars_remaining]")
  show "wf (measures [source_size, chars_remaining])" by simp
next
  fix s s' :: TokenToCharIterator and c
  assume "tc_current_item s = Inr c" and "tc_move_to_next s = Inr s'"
  from tc_move_to_next_decreases [OF this(2,1)]
  show "(s', s) \<in> measures [source_size, chars_remaining]" by auto
next
  fix s s' :: TokenToCharIterator and c
  assume "tc_current_item s = Inr c" and "tc_move_to_next s = Inr s'"
  from tc_move_to_next_decreases [OF this(2,1)]
  show "(s', s) \<in> measures [source_size, chars_remaining]" by auto
qed

declare write_chars.simps [simp del]

definition read_chars :: "TokenToCharIterator \<Rightarrow> str \<times> (error + TokenToCharIterator)" where
  "read_chars s =
     (if tc_is_at_start s then
        (case tc_move_to_next s of
           Inl x \<Rightarrow> ([], Inl x)
         | Inr s' \<Rightarrow> write_chars s')
      else write_chars s)"

text \<open>Construction over a source followed by that loop.\<close>

definition chars_of :: "token ListIterator \<Rightarrow> str \<times> (error + TokenToCharIterator)" where
  "chars_of source =
     (case TokenToCharIterator_make source of
        Inl x \<Rightarrow> ([], Inl x)
      | Inr s \<Rightarrow> read_chars s)"

text \<open>
  What the iterator is to produce: the texts of the tokens before the first token of type
  \<open>EOF\<close>, concatenated (a token with empty text contributes nothing), and the state in
  which it stops, with the source left at that token.
\<close>

definition not_EOF :: "token \<Rightarrow> bool" where
  "not_EOF t \<longleftrightarrow> type' t \<noteq> EOF"

definition text_before_EOF :: "token list \<Rightarrow> str" where
  "text_before_EOF ts = concat (map text' (takeWhile not_EOF ts))"

definition stopped_at :: "token list \<Rightarrow> TokenToCharIterator" where
  "stopped_at ts =
     \<lparr>tc_source = \<lparr>li_list = dropWhile not_EOF ts, li_is_at_start = False\<rparr>, tc_index = 0,
      tc_text = None\<rparr>"

text \<open>What follows a step: the rest of the loop.\<close>

definition then_write :: "error + TokenToCharIterator \<Rightarrow> str \<times> (error + TokenToCharIterator)" where
  "then_write r = (case r of Inl x \<Rightarrow> ([], Inl x) | Inr s' \<Rightarrow> write_chars s')"

subsection \<open>From a source in its start state\<close>

lemma write_chars_no_item: "tc_text s = None \<Longrightarrow> write_chars s = ([], Inr s)"
  by (simp add: write_chars.simps [of s] tc_has_current_item_def)

lemma write_chars_stopped_at: "write_chars (stopped_at ts) = ([], Inr (stopped_at ts))"
  by (simp add: write_chars_no_item stopped_at_def)

lemma write_chars_step:
  assumes "tc_text s = Some txt" and "tc_index s = int k" and "k < length txt"
  shows "write_chars s = (txt ! k # fst (then_write (tc_move_to_next s)),
                          snd (then_write (tc_move_to_next s)))"
  using assms
  by (simp add: write_chars.simps [of s] tc_has_current_item_def tc_current_item_def
      subscript_def then_write_def split: sum.splits)

lemma tc_move_to_next_text_cases:
  assumes "li_move_to_next (tc_source s) = Inr \<lparr>li_list = ts, li_is_at_start = False\<rparr>"
  shows "tc_move_to_next_text s =
    Inr (s\<lparr>tc_source := \<lparr>li_list = ts, li_is_at_start = False\<rparr>,
           tc_text := (case ts of [] \<Rightarrow> None
                       | t # rest \<Rightarrow> if not_EOF t then Some (text' t) else None)\<rparr>)"
  using assms
  by (simp add: tc_move_to_next_text_def li_has_current_item_def tc_set_text_def
      li_current_item_def subscript_def tc_to_E_def not_EOF_def split: list.splits)

lemma loop_stops:
  "tc_text s = None \<or> tc_text s = Some txt \<and> txt \<noteq> [] \<Longrightarrow> \<not> li_is_at_start (tc_source s)
     \<Longrightarrow> tc_move_to_next_non_blank_token_loop s = Inr s"
  by (auto simp: tc_move_to_next_non_blank_token_loop.simps [of s] tc_current_length_def
      tc_is_at_end_def tc_is_at_start_def tc_has_current_item_def)

lemma loop_goes_on:
  "tc_text s = Some [] \<Longrightarrow> \<not> li_is_at_start (tc_source s)
     \<Longrightarrow> tc_move_to_next_non_blank_token_loop s = tc_move_to_next_non_blank_token s"
  by (simp add: tc_move_to_next_non_blank_token_loop.simps [of s] tc_current_length_def
      tc_is_at_end_def tc_is_at_start_def tc_has_current_item_def
      tc_move_to_next_non_blank_token_def)

lemma write_chars_in_token:
  assumes next_token: "\<And>s0. tc_index s0 = 0
      \<Longrightarrow> tc_source s0 = \<lparr>li_list = t # rest, li_is_at_start = False\<rparr>
      \<Longrightarrow> then_write (tc_move_to_next_non_blank_token s0) = R"
    and "tc_source s = \<lparr>li_list = t # rest, li_is_at_start = False\<rparr>"
    and "tc_text s = Some txt" and "tc_index s = int k" and "k < length txt"
  shows "write_chars s = (drop k txt @ fst R, snd R)"
  using assms(2-)
proof (induction "length txt - k" arbitrary: s k)
  case 0
  then show ?case by simp
next
  case (Suc d)
  have started: "\<not> tc_is_at_start s" using Suc.prems by (simp add: tc_is_at_start_def)
  have len: "tc_current_length s = int (length txt)"
    using Suc.prems by (simp add: tc_current_length_def tc_is_at_start_def tc_has_current_item_def)
  have here: "drop k txt = txt ! k # drop (Suc k) txt"
    using Suc.prems by (simp add: Cons_nth_drop_Suc)
  show ?case
  proof (cases "Suc k = length txt")
    case True
    then have "tc_move_to_next s = tc_move_to_next_non_blank_token (s\<lparr>tc_index := 0\<rparr>)"
      using started len Suc.prems by (simp add: tc_move_to_next_def)
    moreover have "then_write (tc_move_to_next_non_blank_token (s\<lparr>tc_index := 0\<rparr>)) = R"
      using Suc.prems by (intro next_token) simp_all
    ultimately show ?thesis
      using write_chars_step [OF Suc.prems(2,3,4)] True here by simp
  next
    case False
    with Suc.prems have k1: "Suc k < length txt" by simp
    have step: "tc_move_to_next s = Inr (s\<lparr>tc_index := tc_index s + 1\<rparr>)"
      using started len Suc.prems False by (auto simp: tc_move_to_next_def)
    have "write_chars (s\<lparr>tc_index := tc_index s + 1\<rparr>) = (drop (Suc k) txt @ fst R, snd R)"
      using Suc.hyps(2) Suc.prems k1 by (intro Suc.hyps(1)) simp_all
    then show ?thesis
      using write_chars_step [OF Suc.prems(2,3,4)] step here by (simp add: then_write_def)
  qed
qed

lemma then_write_next_token:
  assumes "tc_index s = 0"
    and "li_move_to_next (tc_source s) = Inr \<lparr>li_list = ts, li_is_at_start = False\<rparr>"
  shows "then_write (tc_move_to_next_non_blank_token s) = (text_before_EOF ts, Inr (stopped_at ts))"
  using assms
proof (induction ts arbitrary: s)
  case Nil
  let ?s1 = "s\<lparr>tc_source := \<lparr>li_list = [], li_is_at_start = False\<rparr>, tc_text := None\<rparr>"
  have "tc_move_to_next_text s = Inr ?s1"
    using tc_move_to_next_text_cases [OF Nil.prems(2)] by simp
  moreover have "tc_move_to_next_non_blank_token_loop ?s1 = Inr ?s1"
    by (intro loop_stops) simp_all
  moreover have "?s1 = stopped_at []"
    using Nil.prems(1) by (cases s) (simp add: stopped_at_def)
  ultimately show ?case
    by (simp add: tc_move_to_next_non_blank_token_def then_write_def write_chars_stopped_at
        text_before_EOF_def)
next
  case (Cons t rest)
  let ?src = "\<lparr>li_list = t # rest, li_is_at_start = False\<rparr>"
  show ?case
  proof (cases "not_EOF t")
    case False
    let ?s1 = "s\<lparr>tc_source := ?src, tc_text := None\<rparr>"
    have "tc_move_to_next_text s = Inr ?s1"
      using tc_move_to_next_text_cases [OF Cons.prems(2)] False by simp
    moreover have "tc_move_to_next_non_blank_token_loop ?s1 = Inr ?s1"
      by (intro loop_stops) simp_all
    moreover have "?s1 = stopped_at (t # rest)"
      using Cons.prems(1) False by (cases s) (simp add: stopped_at_def)
    ultimately show ?thesis
      using False
      by (simp add: tc_move_to_next_non_blank_token_def then_write_def write_chars_stopped_at
          text_before_EOF_def)
  next
    case True
    let ?s1 = "s\<lparr>tc_source := ?src, tc_text := Some (text' t)\<rparr>"
    have text_step: "tc_move_to_next_text s = Inr ?s1"
      using tc_move_to_next_text_cases [OF Cons.prems(2)] True by simp
    have rest: "then_write (tc_move_to_next_non_blank_token s0)
        = (text_before_EOF rest, Inr (stopped_at rest))"
      if "tc_index s0 = 0" and "tc_source s0 = ?src" for s0
      using that by (intro Cons.IH) (simp_all add: li_move_to_next_def)
    show ?thesis
    proof (cases "text' t = []")
      case blank: True
      have "tc_move_to_next_non_blank_token_loop ?s1 = tc_move_to_next_non_blank_token ?s1"
        using blank by (intro loop_goes_on) simp_all
      moreover have "then_write (tc_move_to_next_non_blank_token ?s1)
          = (text_before_EOF rest, Inr (stopped_at rest))"
        using Cons.prems(1) by (intro rest) simp_all
      ultimately show ?thesis
        using text_step True blank
        by (simp add: tc_move_to_next_non_blank_token_def text_before_EOF_def stopped_at_def)
    next
      case False
      have "tc_move_to_next_non_blank_token_loop ?s1 = Inr ?s1"
        using False loop_stops [of ?s1 "text' t"] by simp
      moreover have "write_chars ?s1 = (text' t @ text_before_EOF rest, Inr (stopped_at rest))"
        using write_chars_in_token [where R = "(text_before_EOF rest, Inr (stopped_at rest))"
            and s = ?s1 and k = 0 and t = t and rest = rest, OF rest] Cons.prems(1) False
        by simp
      ultimately show ?thesis
        using text_step True
        by (simp add: tc_move_to_next_non_blank_token_def then_write_def text_before_EOF_def
            stopped_at_def)
    qed
  qed
qed

lemma chars_of_start:
  "chars_of (ListIterator_make ts) = (text_before_EOF ts, Inr (stopped_at ts))"
proof -
  let ?s = "\<lparr>tc_source = ListIterator_make ts, tc_index = 0, tc_text = None\<rparr>"
  have "TokenToCharIterator_make (ListIterator_make ts) = Inr ?s"
    by (simp add: TokenToCharIterator_make_def tc_initialize_def ListIterator_make_def)
  moreover have "read_chars ?s = then_write (tc_move_to_next_non_blank_token ?s)"
    by (simp add: read_chars_def tc_is_at_start_def ListIterator_make_def tc_move_to_next_def
        then_write_def)
  moreover have "then_write (tc_move_to_next_non_blank_token ?s)
      = (text_before_EOF ts, Inr (stopped_at ts))"
    by (intro then_write_next_token) (simp_all add: ListIterator_make_def li_move_to_next_def)
  ultimately show ?thesis by (simp add: chars_of_def)
qed

text \<open>
  C9 on a source that is handed over after it has been advanced to a token with empty text
  (state I of the source, which \<open>_initialize\<close> provides for): the claim has the iterator skip
  that token and produce the \<open>a\<close> of the next one. \<open>_initialize\<close> calls \<open>_set_text\<close> without
  skipping blank tokens, as \<open>_move_to_next_non_blank_token\<close> does on every later step, so
  the iterator reports a current item that does not exist: reading it raises \<open>IndexError\<close>.
\<close>

theorem token_to_char_blank_first_token:
  "TokenToCharIterator_make
     \<lparr>li_list = [\<lparr>type' = 1, text' = []\<rparr>, \<lparr>type' = 1, text' = str_of ''a''\<rparr>,
                 \<lparr>type' = EOF, text' = str_of ''<EOF>''\<rparr>],
      li_is_at_start = False\<rparr>
   = Inr \<lparr>tc_source =
            \<lparr>li_list = [\<lparr>type' = 1, text' = []\<rparr>, \<lparr>type' = 1, text' = str_of ''a''\<rparr>,
                        \<lparr>type' = EOF, text' = str_of ''<EOF>''\<rparr>],
             li_is_at_start = False\<rparr>,
          tc_index = 0, tc_text = Some []\<rparr>
   \<and> tc_has_current_item
       \<lparr>tc_source =
            \<lparr>li_list = [\<lparr>type' = 1, text' = []\<rparr>, \<lparr>type' = 1, text' = str_of ''a''\<rparr>,
                        \<lparr>type' = EOF, text' = str_of ''<EOF>''\<rparr>],
             li_is_at_start = False\<rparr>,
          tc_index = 0, tc_text = Some []\<rparr>
   \<and> tc_current_item
       \<lparr>tc_source =
            \<lparr>li_list = [\<lparr>type' = 1, text' = []\<rparr>, \<lparr>type' = 1, text' = str_of ''a''\<rparr>,
                        \<lparr>type' = EOF, text' = str_of ''<EOF>''\<rparr>],
             li_is_at_start = False\<rparr>,
          tc_index = 0, tc_text = Some []\<rparr>
     = Inl IndexError
   \<and> chars_of
       \<lparr>li_list = [\<lparr>type' = 1, text' = []\<rparr>, \<lparr>type' = 1, text' = str_of ''a''\<rparr>,
                   \<lparr>type' = EOF, text' = str_of ''<EOF>''\<rparr>],
        li_is_at_start = False\<rparr>
     = ([], Inl IndexError)
   \<and> text_before_EOF
       [\<lparr>type' = 1, text' = []\<rparr>, \<lparr>type' = 1, text' = str_of ''a''\<rparr>,
        \<lparr>type' = EOF, text' = str_of ''<EOF>''\<rparr>]
     = str_of ''a''"
  by (simp add: TokenToCharIterator_make_def tc_initialize_def li_has_current_item_def
      tc_set_text_def li_current_item_def subscript_def EOF_def tc_has_current_item_def
      tc_current_item_def chars_of_def read_chars_def tc_is_at_start_def
      write_chars.simps [of "\<lparr>tc_source = _, tc_index = 0, tc_text = Some []\<rparr>"]
      text_before_EOF_def not_EOF_def str_of_def)

section \<open>The markable stream adapter\<close>

subsection \<open>The lookahead buffer\<close>

text \<open>
  Modelled from the spec: the classes \<open>ArrayedFifo\<close>, \<open>FifoGlobalIndexWrapper\<close> and
  \<open>FifoManager\<close> of \<open>autorecurse.lib.fifo\<close> are not among the sources. The specification
  describes them as one queue seen through three layers: the items in order with a read
  cursor; a global index that counts all items ever pushed, so that the global index of the
  cursor plus the items from the cursor on is the global count; and a set of marks, each
  pinning the items from its global index on, with a garbage collection that discards the
  prefix that no mark pins and that lies strictly behind the cursor. Like every iterator
  the queue starts before its first item. The three objects of the adapter
  (\<open>_inner_buffer\<close>, \<open>_buffer_global\<close>, \<open>_buffer\<close>) are views of this one record: the items
  still held, whether the cursor has left the start, the cursor as an offset into the items
  (the number of items when at the end), the number of items discarded so far, and the
  marks as pairs of a token and the global index it pins.
\<close>

record 'a fifo =
  fifo_items :: "'a list"
  fifo_started :: bool
  fifo_position :: nat
  fifo_discarded :: nat
  fifo_references :: "(int \<times> nat) list"

definition fifo_make :: "'a fifo" where
  "fifo_make =
     \<lparr>fifo_items = [], fifo_started = False, fifo_position = 0, fifo_discarded = 0,
      fifo_references = []\<rparr>"

definition fifo_count :: "'a fifo \<Rightarrow> nat" where
  "fifo_count q = length (fifo_items q)"

definition fifo_is_empty :: "'a fifo \<Rightarrow> bool" where
  "fifo_is_empty q \<longleftrightarrow> fifo_count q = 0"

definition fifo_has_current_item :: "'a fifo \<Rightarrow> bool" where
  "fifo_has_current_item q \<longleftrightarrow> fifo_started q \<and> fifo_position q < fifo_count q"

definition fifo_is_at_end :: "'a fifo \<Rightarrow> bool" where
  "fifo_is_at_end q \<longleftrightarrow> fifo_started q \<and> fifo_count q \<le> fifo_position q"

definition fifo_current_item :: "'a fifo \<Rightarrow> error + 'a" where
  "fifo_current_item q = subscript (fifo_items q) (int (fifo_position q))"

definition fifo_current_index :: "'a fifo \<Rightarrow> nat" where
  "fifo_current_index q = fifo_position q"

definition fifo_push :: "'a \<Rightarrow> 'a fifo \<Rightarrow> 'a fifo" where
  "fifo_push x q = q\<lparr>fifo_items := fifo_items q @ [x]\<rparr>"

definition fifo_move_to_next :: "'a fifo \<Rightarrow> 'a fifo" where
  "fifo_move_to_next q =
     (if \<not> fifo_started q then q\<lparr>fifo_started := True\<rparr>
      else if fifo_position q < fifo_count q then q\<lparr>fifo_position := fifo_position q + 1\<rparr>
      else q)"

definition fifo_move_to_index :: "nat \<Rightarrow> 'a fifo \<Rightarrow> 'a fifo" where
  "fifo_move_to_index i q = q\<lparr>fifo_started := True, fifo_position := i\<rparr>"

definition fifo_global_count :: "'a fifo \<Rightarrow> nat" where
  "fifo_global_count q = fifo_discarded q + fifo_count q"

definition fifo_current_global_index :: "'a fifo \<Rightarrow> nat" where
  "fifo_current_global_index q = fifo_discarded q + fifo_position q"

definition fifo_move_to_global_index :: "nat \<Rightarrow> 'a fifo \<Rightarrow> 'a fifo" where
  "fifo_move_to_global_index g q = fifo_move_to_index (g - fifo_discarded q) q"

text \<open>A new mark pins the cursor; its token is the least number not in use.\<close>

definition fresh_token :: "(int \<times> nat) list \<Rightarrow> int" where
  "fresh_token refs =
     int (hd (filter (\<lambda>n. int n \<notin> fst ` set refs) [0..<Suc (length refs)]))"

definition fifo_new_strong_reference :: "'a fifo \<Rightarrow> int \<times> 'a fifo" where
  "fifo_new_strong_reference q =
     (let ref_token = fresh_token (fifo_references q)
      in (ref_token,
          q\<lparr>fifo_references := (ref_token, fifo_current_global_index q) # fifo_references q\<rparr>))"

definition fifo_release_strong_reference :: "int \<Rightarrow> 'a fifo \<Rightarrow> 'a fifo" where
  "fifo_release_strong_reference ref_token q =
     q\<lparr>fifo_references := filter (\<lambda>r. fst r \<noteq> ref_token) (fifo_references q)\<rparr>"

definition fifo_collect_garbage :: "'a fifo \<Rightarrow> 'a fifo" where
  "fifo_collect_garbage q =
     (let keep_from = fold min (map snd (fifo_references q)) (fifo_current_global_index q);
          d = min (keep_from - fifo_discarded q) (fifo_position q)
      in q\<lparr>fifo_items := drop d (fifo_items q), fifo_position := fifo_position q - d,
           fifo_discarded := fifo_discarded q + d\<rparr>)"

subsection \<open>\<open>IteratorToIntStreamAdapter\<close>\<close>

text \<open>
  The adapter is its buffer and its source iterator, a \<open>ListIterator\<close> in any of its
  states. Its operations carry the prefix \<open>stream_\<close>. The methods that only read take the
  state; the others return the new state, or the exception they raise.

  The methods of this subsection are those of the class \<open>IteratorToIntStreamAdapter\<close> with
  its own \<open>_initialize_buffer\<close> and \<open>_load_one_item_from_iterator\<close>, which is how
  \<open>IteratorToCharStreamAdapter\<close> runs them: it overrides neither. \<open>move_to_next\<close>, \<open>consume\<close>
  and \<open>seek\<close> call \<open>self._load_one_item_from_iterator()\<close>, which
  \<open>IteratorToTokenStreamAdapter\<close> overrides; the methods as that class runs them are in the
  next subsection, with the prefix \<open>token_\<close>.
\<close>

record 'a adapter =
  buffer :: "'a fifo"
  iterator :: "'a ListIterator"

function initialize_buffer :: "'a adapter \<Rightarrow> error + 'a adapter" where
  "initialize_buffer s =
     (if li_is_at_start (iterator s) then
        (case li_move_to_next (iterator s) of
           Inl x \<Rightarrow> Inl x
         | Inr it \<Rightarrow> initialize_buffer (s\<lparr>iterator := it\<rparr>))
      else if li_has_current_item (iterator s) then
        (case li_current_item (iterator s) of
           Inl x \<Rightarrow> Inl x
         | Inr item \<Rightarrow> Inr (s\<lparr>buffer := fifo_move_to_next (fifo_push item (buffer s))\<rparr>))
      else Inr (s\<lparr>buffer := fifo_move_to_next (buffer s)\<rparr>))"
  by pat_completeness auto
termination
proof (relation "measure (\<lambda>s. if li_is_at_start (iterator s) then 1 else 0)")
  show "wf (measure (\<lambda>s :: 'a adapter. if li_is_at_start (iterator s) then 1 else 0))"
    by simp
next
  fix s :: "'a adapter" and it
  assume "li_is_at_start (iterator s)" and "li_move_to_next (iterator s) = Inr it"
  then have "\<not> li_is_at_start it" by (auto simp: li_move_to_next_def)
  with \<open>li_is_at_start (iterator s)\<close>
  show "(s\<lparr>iterator := it\<rparr>, s)
      \<in> measure (\<lambda>s. if li_is_at_start (iterator s) then 1 else 0)"
    by simp
qed

declare initialize_buffer.simps [simp del]

definition stream_make :: "'a ListIterator \<Rightarrow> error + 'a adapter" where
  "stream_make it = initialize_buffer \<lparr>buffer = fifo_make, iterator = it\<rparr>"

definition stream_has_current_item :: "'a adapter \<Rightarrow> bool" where
  "stream_has_current_item s \<longleftrightarrow> fifo_has_current_item (buffer s)"

definition stream_current_item :: "'a adapter \<Rightarrow> error + 'a" where
  "stream_current_item s = fifo_current_item (buffer s)"

definition stream_is_at_start :: "'a adapter \<Rightarrow> bool" where
  "stream_is_at_start s \<longleftrightarrow> False"

definition stream_is_at_end :: "'a adapter \<Rightarrow> bool" where
  "stream_is_at_end s \<longleftrightarrow> fifo_is_at_end (buffer s)"

definition is_I :: "'a adapter \<Rightarrow> bool" where
  "is_I s \<longleftrightarrow> stream_has_current_item s"

definition is_E :: "'a adapter \<Rightarrow> bool" where
  "is_E s \<longleftrightarrow> stream_is_at_end s \<and> \<not> fifo_is_empty (buffer s)"

definition is_EE :: "'a adapter \<Rightarrow> bool" where
  "is_EE s \<longleftrightarrow> stream_is_at_end s \<and> fifo_is_empty (buffer s)"

definition stream_size :: "'a adapter \<Rightarrow> int" where
  "stream_size s = int (fifo_global_count (buffer s))"

definition stream_index :: "'a adapter \<Rightarrow> int" where
  "stream_index s =
     (if is_I s then int (fifo_current_global_index (buffer s)) else stream_size s)"

definition has_more_buffer :: "'a adapter \<Rightarrow> bool" where
  "has_more_buffer s \<longleftrightarrow> fifo_current_index (buffer s) + 1 \<noteq> fifo_count (buffer s)"

definition load_one_item_from_iterator :: "'a adapter \<Rightarrow> error + 'a adapter" where
  "load_one_item_from_iterator s =
     (if li_has_current_item (iterator s) then
        (case li_move_to_next (iterator s) of
           Inl x \<Rightarrow> Inl x
         | Inr it \<Rightarrow>
             if li_has_current_item it then
               (case li_current_item it of
                  Inl x \<Rightarrow> Inl x
                | Inr item \<Rightarrow> Inr (s\<lparr>iterator := it, buffer := fifo_push item (buffer s)\<rparr>))
             else Inr (s\<lparr>iterator := it\<rparr>))
      else Inr s)"

definition stream_move_to_next :: "'a adapter \<Rightarrow> error + 'a adapter" where
  "stream_move_to_next s =
     (if has_more_buffer s then Inr (s\<lparr>buffer := fifo_move_to_next (buffer s)\<rparr>)
      else
        (case load_one_item_from_iterator s of
           Inl x \<Rightarrow> Inl x
         | Inr s' \<Rightarrow> Inr (s'\<lparr>buffer := fifo_move_to_next (buffer s')\<rparr>)))"

definition consume :: "'a adapter \<Rightarrow> error + 'a adapter" where
  "consume s =
     (if is_I s then stream_move_to_next s else Inl (Exception ''Cannot consume EOF.''))"

definition lowest_index_in_buffer :: "'a adapter \<Rightarrow> int" where
  "lowest_index_in_buffer s =
     int (fifo_global_count (buffer s)) - int (fifo_count (buffer s))"

definition index_is_in_buffer :: "'a adapter \<Rightarrow> int \<Rightarrow> bool" where
  "index_is_in_buffer s index \<longleftrightarrow> lowest_index_in_buffer s \<le> index \<and> index < stream_size s"

text \<open>What the pulling loops decrease.\<close>

definition stream_left :: "'a adapter \<Rightarrow> nat" where
  "stream_left s =
     2 * (fifo_count (buffer s) - fifo_position (buffer s))
     + 3 * length (li_list (iterator s))
     + (if fifo_started (buffer s) then 0 else 1)"

lemma stream_move_to_next_left:
  assumes "stream_move_to_next s = Inr s'" and "\<not> stream_is_at_end s"
  shows "stream_left s' < stream_left s"
proof (cases "has_more_buffer s")
  case True
  with assms show ?thesis
    by (auto simp: stream_move_to_next_def stream_left_def fifo_move_to_next_def
        stream_is_at_end_def fifo_is_at_end_def fifo_count_def)
next
  case False
  with assms(1) obtain s1 where load: "load_one_item_from_iterator s = Inr s1"
    and s': "s' = s1\<lparr>buffer := fifo_move_to_next (buffer s1)\<rparr>"
    by (auto simp: stream_move_to_next_def split: sum.splits)
  from load have "fifo_started (buffer s1) = fifo_started (buffer s)
      \<and> fifo_position (buffer s1) = fifo_position (buffer s)
      \<and> (buffer s1 = buffer s \<and> length (li_list (iterator s1)) \<le> length (li_list (iterator s))
         \<or> fifo_count (buffer s1) = fifo_count (buffer s) + 1
           \<and> length (li_list (iterator s1)) < length (li_list (iterator s)))"
    by (auto simp: load_one_item_from_iterator_def li_move_to_next_def li_has_current_item_def
        fifo_push_def fifo_count_def split: if_splits sum.splits list.splits)
  with s' assms(2) show ?thesis
    by (auto simp: stream_left_def fifo_move_to_next_def stream_is_at_end_def
        fifo_is_at_end_def fifo_count_def)
qed

function seek_loop :: "'a adapter \<Rightarrow> int \<Rightarrow> error + 'a adapter" where
  "seek_loop s diff =
     (if \<not> (diff = 0 \<or> stream_is_at_end s) then
        (case stream_move_to_next s of
           Inl x \<Rightarrow> Inl x
         | Inr s' \<Rightarrow> seek_loop s' (diff - 1))
      else Inr s)"
  by pat_completeness auto
termination
proof (relation "measure (\<lambda>(s, diff). stream_left s)")
  show "wf (measure (\<lambda>(s :: 'a adapter, diff :: int). stream_left s))" by simp
next
  fix s s' :: "'a adapter" and diff :: int
  assume "\<not> (diff = 0 \<or> stream_is_at_end s)" and "stream_move_to_next s = Inr s'"
  then have "stream_left s' < stream_left s" by (auto intro: stream_move_to_next_left)
  then show "((s', diff - 1), (s, diff)) \<in> measure (\<lambda>(s, diff). stream_left s)" by simp
qed

declare seek_loop.simps [simp del]

definition stream_seek :: "'a adapter \<Rightarrow> int \<Rightarrow> error + 'a adapter" where
  "stream_seek s index =
     (if index < 0 then Inl (Exception ''Cannot seek to negative index.'')
      else if is_I s then
        (if stream_size s \<le> index then
           (let s1 = s\<lparr>buffer := fifo_move_to_index (fifo_count (buffer s) - 1) (buffer s)\<rparr>;
                diff = index - stream_index s1
            in seek_loop s1 diff)
         else if index_is_in_buffer s index then
           Inr (s\<lparr>buffer := fifo_move_to_global_index (nat index) (buffer s)\<rparr>)
         else Inl (Exception ''Cannot seek to released index.''))
      else if is_E s then
        (if stream_size s \<le> index then Inr s
         else if index_is_in_buffer s index then
           Inr (s\<lparr>buffer := fifo_move_to_global_index (nat index) (buffer s)\<rparr>)
         else Inl (Exception ''Cannot seek to released index.''))
      else
        (if stream_size s \<le> index then Inr s
         else Inl (Exception ''Cannot seek to released index.'')))"

definition new_strong_reference_exclude :: "'a adapter \<Rightarrow> int \<Rightarrow> int \<times> 'a adapter" where
  "new_strong_reference_exclude s exclude =
     (let (ref_token, q) = fifo_new_strong_reference (buffer s)
      in if ref_token = exclude then
           (let (ref_token', q') = fifo_new_strong_reference q
            in (ref_token', s\<lparr>buffer := fifo_release_strong_reference exclude q'\<rparr>))
         else (ref_token, s\<lparr>buffer := q\<rparr>))"

definition mark :: "'a adapter \<Rightarrow> int \<times> 'a adapter" where
  "mark s = (if is_I s then new_strong_reference_exclude s 0 else (0, s))"

definition release :: "'a adapter \<Rightarrow> int \<Rightarrow> 'a adapter" where
  "release s marker =
     s\<lparr>buffer := fifo_collect_garbage (fifo_release_strong_reference marker (buffer s))\<rparr>"

text \<open>
  The states a client can bring an \<open>IteratorToCharStreamAdapter\<close> into: construction over a
  source of characters, and then any sequence of \<open>consume\<close> (which is \<open>move_to_next\<close> in
  state I), \<open>seek\<close>, \<open>mark\<close> and \<open>release\<close>. \<open>LA\<close>, \<open>getText\<close> and \<open>move_to_end\<close> are built
  from the same steps on the buffer and the source.
\<close>

inductive reachable :: "nat adapter \<Rightarrow> bool" where
  made: "stream_make it = Inr s \<Longrightarrow> reachable s"
| consumed: "reachable s \<Longrightarrow> consume s = Inr s' \<Longrightarrow> reachable s'"
| sought: "reachable s \<Longrightarrow> stream_seek s index = Inr s' \<Longrightarrow> reachable s'"
| marked: "reachable s \<Longrightarrow> mark s = (marker, s') \<Longrightarrow> reachable s'"
| released: "reachable s \<Longrightarrow> reachable (release s marker)"

text \<open>The source items that the adapter has not pulled yet.\<close>

definition pending :: "'a adapter \<Rightarrow> nat" where
  "pending s =
     (if li_has_current_item (iterator s) then length (li_list (iterator s)) - 1 else 0)"

text \<open>
  What every reachable state satisfies: the cursor is inside the buffer or at its end, and
  the source has left its start.
\<close>

definition buffer_ok :: "'a adapter \<Rightarrow> bool" where
  "buffer_ok s \<longleftrightarrow>
     fifo_started (buffer s) \<and> fifo_position (buffer s) \<le> fifo_count (buffer s)
     \<and> \<not> li_is_at_start (iterator s)"

text \<open>At the last buffered item: one step pulls one pending item, or reaches the end.\<close>

definition at_last :: "'a adapter \<Rightarrow> bool" where
  "at_last s \<longleftrightarrow>
     fifo_started (buffer s) \<and> fifo_position (buffer s) + 1 = fifo_count (buffer s)"

subsection \<open>\<open>IteratorToTokenStreamAdapter\<close>\<close>

text \<open>
  The token variant constructs its buffer with a method of its own, which treats a token
  of type \<open>EOF\<close> as the end of the stream and does not buffer it. It loads from its source
  with a method of its own too, which neither buffers that token nor moves the source past
  it. It inherits \<open>move_to_next\<close>, \<open>consume\<close>, \<open>seek\<close>, \<open>mark\<close>, \<open>release\<close>, \<open>index\<close> and
  \<open>size\<close>; the first three reach the loader, so they are given here as this class runs
  them.
\<close>

definition iterator_is_at_eof_token :: "token adapter \<Rightarrow> error + bool" where
  "iterator_is_at_eof_token s =
     (case li_current_item (iterator s) of
        Inl x \<Rightarrow> Inl x
      | Inr item \<Rightarrow> Inr (type' item = EOF))"

function token_initialize_buffer :: "token adapter \<Rightarrow> error + token adapter" where
  "token_initialize_buffer s =
     (if li_is_at_start (iterator s) then
        (case li_move_to_next (iterator s) of
           Inl x \<Rightarrow> Inl x
         | Inr it \<Rightarrow> token_initialize_buffer (s\<lparr>iterator := it\<rparr>))
      else
        (case iterator_is_at_eof_token s of
           Inl x \<Rightarrow> Inl x
         | Inr eof \<Rightarrow>
             if \<not> eof then
               (case li_current_item (iterator s) of
                  Inl x \<Rightarrow> Inl x
                | Inr item \<Rightarrow> Inr (s\<lparr>buffer := fifo_move_to_next (fifo_push item (buffer s))\<rparr>))
             else Inr (s\<lparr>buffer := fifo_move_to_next (buffer s)\<rparr>)))"
  by pat_completeness auto
termination
proof (relation "measure (\<lambda>s. if li_is_at_start (iterator s) then 1 else 0)")
  show "wf (measure (\<lambda>s :: token adapter. if li_is_at_start (iterator s) then 1 else 0))"
    by simp
next
  fix s :: "token adapter" and it
  assume "li_is_at_start (iterator s)" and "li_move_to_next (iterator s) = Inr it"
  then have "\<not> li_is_at_start it" by (auto simp: li_move_to_next_def)
  with \<open>li_is_at_start (iterator s)\<close>
  show "(s\<lparr>iterator := it\<rparr>, s)
      \<in> measure (\<lambda>s. if li_is_at_start (iterator s) then 1 else 0)"
    by simp
qed

declare token_initialize_buffer.simps [simp del]

definition token_stream_make :: "token ListIterator \<Rightarrow> error + token adapter" where
  "token_stream_make it = token_initialize_buffer \<lparr>buffer = fifo_make, iterator = it\<rparr>"

definition token_load_one_item_from_iterator :: "token adapter \<Rightarrow> error + token adapter" where
  "token_load_one_item_from_iterator s =
     (if li_has_current_item (iterator s) then
        (case iterator_is_at_eof_token s of
           Inl x \<Rightarrow> Inl x
         | Inr eof \<Rightarrow>
             if \<not> eof then
               (case li_move_to_next (iterator s) of
                  Inl x \<Rightarrow> Inl x
                | Inr it \<Rightarrow>
                    if li_has_current_item it then
                      (case iterator_is_at_eof_token (s\<lparr>iterator := it\<rparr>) of
                         Inl x \<Rightarrow> Inl x
                       | Inr eof' \<Rightarrow>
                           if \<not> eof' then
                             (case li_current_item it of
                                Inl x \<Rightarrow> Inl x
                              | Inr item \<Rightarrow>
                                  Inr (s\<lparr>iterator := it, buffer := fifo_push item (buffer s)\<rparr>))
                           else Inr (s\<lparr>iterator := it\<rparr>))
                    else Inr (s\<lparr>iterator := it\<rparr>))
             else Inr s)
      else Inr s)"

definition token_stream_move_to_next :: "token adapter \<Rightarrow> error + token adapter" where
  "token_stream_move_to_next s =
     (if has_more_buffer s then Inr (s\<lparr>buffer := fifo_move_to_next (buffer s)\<rparr>)
      else
        (case token_load_one_item_from_iterator s of
           Inl x \<Rightarrow> Inl x
         | Inr s' \<Rightarrow> Inr (s'\<lparr>buffer := fifo_move_to_next (buffer s')\<rparr>)))"

definition token_consume :: "token adapter \<Rightarrow> error + token adapter" where
  "token_consume s =
     (if is_I s then token_stream_move_to_next s else Inl (Exception ''Cannot consume EOF.''))"

lemma token_load_one_item_from_iterator_cases:
  assumes "token_load_one_item_from_iterator s = Inr s'"
  shows "fifo_started (buffer s') = fifo_started (buffer s)
      \<and> fifo_position (buffer s') = fifo_position (buffer s)
      \<and> fifo_discarded (buffer s') = fifo_discarded (buffer s)
      \<and> (\<not> li_is_at_start (iterator s) \<longrightarrow> \<not> li_is_at_start (iterator s'))
      \<and> (fifo_count (buffer s') = fifo_count (buffer s)
           \<and> length (li_list (iterator s')) \<le> length (li_list (iterator s))
         \<or> fifo_count (buffer s') = fifo_count (buffer s) + 1
           \<and> length (li_list (iterator s')) < length (li_list (iterator s)))"
  using assms
  by (auto simp: token_load_one_item_from_iterator_def iterator_is_at_eof_token_def
      li_move_to_next_def li_has_current_item_def li_current_item_def
      fifo_push_def fifo_count_def split: if_splits sum.splits list.splits)

lemma token_stream_move_to_next_left:
  assumes "token_stream_move_to_next s = Inr s'" and "\<not> stream_is_at_end s"
  shows "stream_left s' < stream_left s"
proof (cases "has_more_buffer s")
  case True
  with assms show ?thesis
    by (auto simp: token_stream_move_to_next_def stream_left_def fifo_move_to_next_def
        stream_is_at_end_def fifo_is_at_end_def fifo_count_def)
next
  case False
  with assms(1) obtain s1 where load: "token_load_one_item_from_iterator s = Inr s1"
    and s': "s' = s1\<lparr>buffer := fifo_move_to_next (buffer s1)\<rparr>"
    by (auto simp: token_stream_move_to_next_def split: sum.splits)
  from token_load_one_item_from_iterator_cases [OF load] s' assms(2) show ?thesis
    by (auto simp: stream_left_def fifo_move_to_next_def stream_is_at_end_def
        fifo_is_at_end_def fifo_count_def)
qed

function token_seek_loop :: "token adapter \<Rightarrow> int \<Rightarrow> error + token adapter" where
  "token_seek_loop s diff =
     (if \<not> (diff = 0 \<or> stream_is_at_end s) then
        (case token_stream_move_to_next s of
           Inl x \<Rightarrow> Inl x
         | Inr s' \<Rightarrow> token_seek_loop s' (diff - 1))
      else Inr s)"
  by pat_completeness auto
termination
proof (relation "measure (\<lambda>(s, diff). stream_left s)")
  show "wf (measure (\<lambda>(s :: token adapter, diff :: int). stream_left s))" by simp
next
  fix s s' :: "token adapter" and diff :: int
  assume "\<not> (diff = 0 \<or> stream_is_at_end s)" and "token_stream_move_to_next s = Inr s'"
  then have "stream_left s' < stream_left s" by (auto intro: token_stream_move_to_next_left)
  then show "((s', diff - 1), (s, diff)) \<in> measure (\<lambda>(s, diff). stream_left s)" by simp
qed

declare token_seek_loop.simps [simp del]

definition token_stream_seek :: "token adapter \<Rightarrow> int \<Rightarrow> error + token adapter" where
  "token_stream_seek s index =
     (if index < 0 then Inl (Exception ''Cannot seek to negative index.'')
      else if is_I s then
        (if stream_size s \<le> index then
           (let s1 = s\<lparr>buffer := fifo_move_to_index (fifo_count (buffer s) - 1) (buffer s)\<rparr>;
                diff = index - stream_index s1
            in token_seek_loop s1 diff)
         else if index_is_in_buffer s index then
           Inr (s\<lparr>buffer := fifo_move_to_global_index (nat index) (buffer s)\<rparr>)
         else Inl (Exception ''Cannot seek to released index.''))
      else if is_E s then
        (if stream_size s \<le> index then Inr s
         else if index_is_in_buffer s index then
           Inr (s\<lparr>buffer := fifo_move_to_global_index (nat index) (buffer s)\<rparr>)
         else Inl (Exception ''Cannot seek to released index.''))
      else
        (if stream_size s \<le> index then Inr s
         else Inl (Exception ''Cannot seek to released index.'')))"

text \<open>The states a client can bring an \<open>IteratorToTokenStreamAdapter\<close> into.\<close>

inductive token_reachable :: "token adapter \<Rightarrow> bool" where
  token_made: "token_stream_make it = Inr s \<Longrightarrow> token_reachable s"
| token_consumed: "token_reachable s \<Longrightarrow> token_consume s = Inr s' \<Longrightarrow> token_reachable s'"
| token_sought: "token_reachable s \<Longrightarrow> token_stream_seek s index = Inr s' \<Longrightarrow> token_reachable s'"
| token_marked: "token_reachable s \<Longrightarrow> mark s = (marker, s') \<Longrightarrow> token_reachable s'"
| token_released: "token_reachable s \<Longrightarrow> token_reachable (release s marker)"

text \<open>
  The source tokens that the adapter has not pulled yet and will pull: those after the
  current one and before the first token of type \<open>EOF\<close>.
\<close>

definition token_pending :: "token adapter \<Rightarrow> nat" where
  "token_pending s =
     (if li_has_current_item (iterator s) \<and> not_EOF (hd (li_list (iterator s)))
      then length (takeWhile not_EOF (tl (li_list (iterator s)))) else 0)"

subsection \<open>Example states\<close>

text \<open>
  The character adapter made over the source \<open>abc\<close>, that adapter after \<open>seek(1)\<close>, and
  after \<open>seek(5)\<close>. The token adapter made over the tokens of \<open>all:\<close>, that adapter after
  \<open>seek(1)\<close>, and after \<open>seek(5)\<close>.
\<close>

definition abc_made :: "nat adapter" where
  "abc_made =
     \<lparr>buffer = \<lparr>fifo_items = [97], fifo_started = True, fifo_position = 0, fifo_discarded = 0,
                fifo_references = []\<rparr>,
      iterator = \<lparr>li_list = [97, 98, 99], li_is_at_start = False\<rparr>\<rparr>"

definition abc_sought :: "nat adapter" where
  "abc_sought =
     \<lparr>buffer = \<lparr>fifo_items = [97, 98], fifo_started = True, fifo_position = 1,
                fifo_discarded = 0, fifo_references = []\<rparr>,
      iterator = \<lparr>li_list = [98, 99], li_is_at_start = False\<rparr>\<rparr>"

definition abc_done :: "nat adapter" where
  "abc_done =
     \<lparr>buffer = \<lparr>fifo_items = [97, 98, 99], fifo_started = True, fifo_position = 3,
                fifo_discarded = 0, fifo_references = []\<rparr>,
      iterator = \<lparr>li_list = [], li_is_at_start = False\<rparr>\<rparr>"

definition rule_tokens :: "token list" where
  "rule_tokens =
     [\<lparr>type' = 1, text' = str_of ''all''\<rparr>, \<lparr>type' = 2, text' = str_of '':''\<rparr>,
      \<lparr>type' = EOF, text' = str_of ''<EOF>''\<rparr>]"

definition rule_made :: "token adapter" where
  "rule_made =
     \<lparr>buffer = \<lparr>fifo_items = take 1 rule_tokens, fifo_started = True, fifo_position = 0,
                fifo_discarded = 0, fifo_references = []\<rparr>,
      iterator = \<lparr>li_list = rule_tokens, li_is_at_start = False\<rparr>\<rparr>"

definition rule_sought :: "token adapter" where
  "rule_sought =
     \<lparr>buffer = \<lparr>fifo_items = take 2 rule_tokens, fifo_started = True, fifo_position = 1,
                fifo_discarded = 0, fifo_references = []\<rparr>,
      iterator = \<lparr>li_list = drop 1 rule_tokens, li_is_at_start = False\<rparr>\<rparr>"

definition rule_done :: "token adapter" where
  "rule_done =
     \<lparr>buffer = \<lparr>fifo_items = take 2 rule_tokens, fifo_started = True, fifo_position = 2,
                fifo_discarded = 0, fifo_references = []\<rparr>,
      iterator = \<lparr>li_list = drop 2 rule_tokens, li_is_at_start = False\<rparr>\<rparr>"

subsection \<open>The cursor stays inside the buffer\<close>

lemma is_I_iff: "buffer_ok s \<Longrightarrow> is_I s \<longleftrightarrow> fifo_position (buffer s) < fifo_count (buffer s)"
  by (simp add: is_I_def stream_has_current_item_def fifo_has_current_item_def buffer_ok_def)

lemma is_at_end_iff:
  "buffer_ok s \<Longrightarrow> stream_is_at_end s \<longleftrightarrow> fifo_position (buffer s) = fifo_count (buffer s)"
  by (auto simp: stream_is_at_end_def fifo_is_at_end_def buffer_ok_def)

lemma initialize_buffer_ok:
  "fifo_position (buffer s) = 0 \<Longrightarrow> \<not> fifo_started (buffer s)
     \<Longrightarrow> initialize_buffer s = Inr s' \<Longrightarrow> buffer_ok s'"
proof (induction s rule: initialize_buffer.induct)
  case (1 s)
  show ?case
  proof (cases "li_is_at_start (iterator s)")
    case True
    with "1.prems" obtain it where it: "li_move_to_next (iterator s) = Inr it"
      and init: "initialize_buffer (s\<lparr>iterator := it\<rparr>) = Inr s'"
      by (auto simp: initialize_buffer.simps [of s] split: sum.splits)
    from "1.IH" [OF True it _ _ init] "1.prems" show ?thesis by simp
  next
    case False
    with "1.prems" show ?thesis
      by (auto simp: initialize_buffer.simps [of s] buffer_ok_def fifo_move_to_next_def
          fifo_push_def fifo_count_def split: if_splits sum.splits)
  qed
qed

lemma load_one_item_from_iterator_buffer:
  "load_one_item_from_iterator s = Inr s' \<Longrightarrow>
     fifo_started (buffer s') = fifo_started (buffer s)
     \<and> fifo_position (buffer s') = fifo_position (buffer s)
     \<and> fifo_discarded (buffer s') = fifo_discarded (buffer s)
     \<and> fifo_count (buffer s) \<le> fifo_count (buffer s')
     \<and> (\<not> li_is_at_start (iterator s) \<longrightarrow> \<not> li_is_at_start (iterator s'))"
  by (auto simp: load_one_item_from_iterator_def fifo_push_def fifo_count_def
      li_move_to_next_def split: if_splits sum.splits list.splits)

lemma stream_move_to_next_ok:
  assumes "buffer_ok s" and "stream_move_to_next s = Inr s'"
  shows "buffer_ok s'"
proof (cases "has_more_buffer s")
  case True
  with assms show ?thesis
    by (auto simp: stream_move_to_next_def buffer_ok_def fifo_move_to_next_def fifo_count_def)
next
  case False
  with assms(2) obtain s1 where load: "load_one_item_from_iterator s = Inr s1"
    and s': "s' = s1\<lparr>buffer := fifo_move_to_next (buffer s1)\<rparr>"
    by (auto simp: stream_move_to_next_def split: sum.splits)
  from load_one_item_from_iterator_buffer [OF load] assms(1) s' show ?thesis
    by (auto simp: buffer_ok_def fifo_move_to_next_def fifo_count_def)
qed

lemma seek_loop_ok:
  "buffer_ok s \<Longrightarrow> seek_loop s diff = Inr s' \<Longrightarrow> buffer_ok s'"
proof (induction s diff rule: seek_loop.induct)
  case (1 s diff)
  show ?case
  proof (cases "diff = 0 \<or> stream_is_at_end s")
    case True
    with "1.prems" show ?thesis by (auto simp: seek_loop.simps [of s diff])
  next
    case False
    with "1.prems" obtain s1 where s1: "stream_move_to_next s = Inr s1"
      and loop: "seek_loop s1 (diff - 1) = Inr s'"
      by (auto simp: seek_loop.simps [of s diff] split: sum.splits)
    from "1.IH" [OF False s1 stream_move_to_next_ok [OF "1.prems"(1) s1] loop] show ?thesis .
  qed
qed

lemma stream_seek_ok:
  assumes "buffer_ok s" and "stream_seek s index = Inr s'"
  shows "buffer_ok s'"
proof -
  have a: "buffer_ok (s\<lparr>buffer := fifo_move_to_index (fifo_count (buffer s) - 1) (buffer s)\<rparr>)"
    using assms(1) by (simp add: buffer_ok_def fifo_move_to_index_def fifo_count_def)
  have b: "buffer_ok (s\<lparr>buffer := fifo_move_to_global_index (nat index) (buffer s)\<rparr>)"
    if "index_is_in_buffer s index"
    using that assms(1)
    by (auto simp: buffer_ok_def fifo_move_to_global_index_def fifo_move_to_index_def
        fifo_count_def index_is_in_buffer_def lowest_index_in_buffer_def stream_size_def
        fifo_global_count_def)
  from assms(2) show ?thesis
    using a b assms(1) seek_loop_ok
    by (auto simp: stream_seek_def Let_def split: if_splits)
qed

lemma mark_ok: "buffer_ok s \<Longrightarrow> mark s = (marker, s') \<Longrightarrow> buffer_ok s'"
  by (auto simp: mark_def new_strong_reference_exclude_def fifo_new_strong_reference_def
      fifo_release_strong_reference_def buffer_ok_def fifo_count_def Let_def
      split: if_splits prod.splits)

lemma release_ok: "buffer_ok s \<Longrightarrow> buffer_ok (release s marker)"
  by (auto simp: release_def fifo_collect_garbage_def fifo_release_strong_reference_def
      buffer_ok_def fifo_count_def Let_def)

lemma reachable_buffer_ok: "reachable s \<Longrightarrow> buffer_ok s"
proof (induction rule: reachable.induct)
  case (made it s)
  then show ?case
    using initialize_buffer_ok [of "\<lparr>buffer = fifo_make, iterator = it\<rparr>" s]
    by (simp add: stream_make_def fifo_make_def)
next
  case (consumed s s')
  then show ?case by (auto simp: consume_def split: if_splits intro: stream_move_to_next_ok)
next
  case (sought s index s')
  then show ?case by (auto intro: stream_seek_ok)
next
  case (marked s marker s')
  then show ?case by (auto intro: mark_ok)
next
  case (released s marker)
  then show ?case by (auto intro: release_ok)
qed

subsection \<open>Seeking beyond the buffered items\<close>

lemma stream_move_to_next_pull:
  assumes "at_last s" and "0 < pending s"
  shows "\<exists>s'. stream_move_to_next s = Inr s' \<and> at_last s'
    \<and> fifo_count (buffer s') = fifo_count (buffer s) + 1
    \<and> fifo_discarded (buffer s') = fifo_discarded (buffer s)
    \<and> pending s' = pending s - 1 \<and> \<not> li_is_at_start (iterator s')"
proof -
  from assms(2) obtain x y ys where list: "li_list (iterator s) = x # y # ys"
    and started: "\<not> li_is_at_start (iterator s)"
    by (cases "li_list (iterator s)"; cases "tl (li_list (iterator s))")
      (auto simp: pending_def li_has_current_item_def split: if_splits)
  let ?it = "(iterator s)\<lparr>li_list := y # ys\<rparr>"
  have "load_one_item_from_iterator s = Inr (s\<lparr>iterator := ?it, buffer := fifo_push y (buffer s)\<rparr>)"
    using list started
    by (simp add: load_one_item_from_iterator_def li_has_current_item_def li_move_to_next_def
        li_current_item_def subscript_def)
  moreover have "\<not> has_more_buffer s"
    using assms(1) by (simp add: has_more_buffer_def at_last_def fifo_current_index_def)
  ultimately have "stream_move_to_next s
      = Inr (s\<lparr>iterator := ?it, buffer := fifo_move_to_next (fifo_push y (buffer s))\<rparr>)"
    by (simp add: stream_move_to_next_def)
  then show ?thesis
    using assms(1) list started
    by (simp add: at_last_def fifo_move_to_next_def fifo_push_def fifo_count_def pending_def
        li_has_current_item_def)
qed

lemma stream_move_to_next_finish:
  assumes "at_last s" and "pending s = 0" and "\<not> li_is_at_start (iterator s)"
  shows "\<exists>s'. stream_move_to_next s = Inr s' \<and> fifo_started (buffer s')
    \<and> fifo_position (buffer s') = fifo_count (buffer s')
    \<and> fifo_count (buffer s') = fifo_count (buffer s)
    \<and> fifo_discarded (buffer s') = fifo_discarded (buffer s)
    \<and> pending s' = 0 \<and> li_is_at_end (iterator s')"
proof -
  have nomore: "\<not> has_more_buffer s"
    using assms(1) by (simp add: has_more_buffer_def at_last_def fifo_current_index_def)
  show ?thesis
  proof (cases "li_has_current_item (iterator s)")
    case True
    with assms(2) obtain x where list: "li_list (iterator s) = [x]"
      and started: "\<not> li_is_at_start (iterator s)"
      by (cases "li_list (iterator s)"; cases "tl (li_list (iterator s))")
        (auto simp: pending_def li_has_current_item_def)
    have "load_one_item_from_iterator s = Inr (s\<lparr>iterator := (iterator s)\<lparr>li_list := []\<rparr>\<rparr>)"
      using list started
      by (simp add: load_one_item_from_iterator_def li_has_current_item_def li_move_to_next_def)
    then show ?thesis
      using nomore assms(1) started
      by (simp add: stream_move_to_next_def at_last_def fifo_move_to_next_def fifo_count_def
          pending_def li_has_current_item_def li_is_at_end_def)
  next
    case False
    then have "load_one_item_from_iterator s = Inr s"
      by (simp add: load_one_item_from_iterator_def)
    moreover from False assms(3) have "li_is_at_end (iterator s)"
      by (simp add: li_has_current_item_def li_is_at_end_def)
    ultimately show ?thesis
      using nomore assms(1) False
      by (simp add: stream_move_to_next_def at_last_def fifo_move_to_next_def fifo_count_def
          pending_def)
  qed
qed

lemma seek_loop_at_end:
  "fifo_started (buffer s) \<Longrightarrow> fifo_position (buffer s) = fifo_count (buffer s)
     \<Longrightarrow> seek_loop s diff = Inr s"
  by (simp add: seek_loop.simps [of s diff] stream_is_at_end_def fifo_is_at_end_def)

lemma seek_loop_step:
  "\<not> stream_is_at_end s \<Longrightarrow> diff \<noteq> 0 \<Longrightarrow> stream_move_to_next s = Inr s1
     \<Longrightarrow> seek_loop s diff = seek_loop s1 (diff - 1)"
  by (simp add: seek_loop.simps [of s diff])

lemma seek_loop_pull:
  assumes "at_last s" and "n \<le> pending s"
  shows "\<exists>s'. seek_loop s (int n) = Inr s' \<and> at_last s'
    \<and> fifo_count (buffer s') = fifo_count (buffer s) + n
    \<and> fifo_discarded (buffer s') = fifo_discarded (buffer s)
    \<and> pending s' = pending s - n
    \<and> (\<not> li_is_at_start (iterator s) \<longrightarrow> \<not> li_is_at_start (iterator s'))"
  using assms
proof (induction n arbitrary: s)
  case 0
  then show ?case by (simp add: seek_loop.simps [of s 0])
next
  case (Suc n)
  from Suc.prems obtain s1 where step: "stream_move_to_next s = Inr s1" and last1: "at_last s1"
    and count1: "fifo_count (buffer s1) = fifo_count (buffer s) + 1"
    and disc1: "fifo_discarded (buffer s1) = fifo_discarded (buffer s)"
    and pend1: "pending s1 = pending s - 1" and "\<not> li_is_at_start (iterator s1)"
    using stream_move_to_next_pull [of s] by auto
  from Suc.prems pend1 have "n \<le> pending s1" by simp
  from Suc.IH [OF last1 this] \<open>\<not> li_is_at_start (iterator s1)\<close>
  obtain s' where loop: "seek_loop s1 (int n) = Inr s'"
    and "at_last s'" and "fifo_count (buffer s') = fifo_count (buffer s1) + n"
    and "fifo_discarded (buffer s') = fifo_discarded (buffer s1)"
    and "pending s' = pending s1 - n" and "\<not> li_is_at_start (iterator s')"
    by auto
  moreover have "\<not> stream_is_at_end s"
    using Suc.prems(1) by (simp add: at_last_def stream_is_at_end_def fifo_is_at_end_def)
  then have "seek_loop s (int (Suc n)) = seek_loop s1 (int n)"
    using step seek_loop_step [of s "int (Suc n)" s1] by simp
  ultimately show ?case using count1 disc1 pend1 by simp
qed

lemma seek_loop_exhaust:
  assumes "at_last s" and "pending s < n" and "\<not> li_is_at_start (iterator s)"
  shows "\<exists>s'. seek_loop s (int n) = Inr s' \<and> fifo_started (buffer s')
    \<and> fifo_position (buffer s') = fifo_count (buffer s')
    \<and> fifo_count (buffer s') = fifo_count (buffer s) + pending s
    \<and> fifo_discarded (buffer s') = fifo_discarded (buffer s)
    \<and> pending s' = 0 \<and> li_is_at_end (iterator s')"
  using assms
proof (induction n arbitrary: s)
  case 0
  then show ?case by simp
next
  case (Suc n)
  have running: "\<not> stream_is_at_end s"
    using Suc.prems(1) by (simp add: at_last_def stream_is_at_end_def fifo_is_at_end_def)
  show ?case
  proof (cases "pending s = 0")
    case True
    from stream_move_to_next_finish [OF Suc.prems(1) True Suc.prems(3)]
    obtain s1 where step: "stream_move_to_next s = Inr s1" and "fifo_started (buffer s1)"
      and "fifo_position (buffer s1) = fifo_count (buffer s1)"
      and "fifo_count (buffer s1) = fifo_count (buffer s)"
      and "fifo_discarded (buffer s1) = fifo_discarded (buffer s)" and "pending s1 = 0"
      and "li_is_at_end (iterator s1)"
      by auto
    moreover from this have "seek_loop s1 (int n) = Inr s1" by (intro seek_loop_at_end)
    moreover have "seek_loop s (int (Suc n)) = seek_loop s1 (int n)"
      using step running seek_loop_step [of s "int (Suc n)" s1] by simp
    ultimately show ?thesis using True by simp
  next
    case False
    then obtain s1 where step: "stream_move_to_next s = Inr s1" and last1: "at_last s1"
      and count1: "fifo_count (buffer s1) = fifo_count (buffer s) + 1"
      and disc1: "fifo_discarded (buffer s1) = fifo_discarded (buffer s)"
      and pend1: "pending s1 = pending s - 1" and start1: "\<not> li_is_at_start (iterator s1)"
      using stream_move_to_next_pull [of s] Suc.prems(1) by auto
    from Suc.prems False pend1 have "pending s1 < n" by simp
    from Suc.IH [OF last1 this start1] obtain s' where "seek_loop s1 (int n) = Inr s'"
      and "fifo_started (buffer s')" and "fifo_position (buffer s') = fifo_count (buffer s')"
      and "fifo_count (buffer s') = fifo_count (buffer s1) + pending s1"
      and "fifo_discarded (buffer s') = fifo_discarded (buffer s1)" and "pending s' = 0"
      and "li_is_at_end (iterator s')"
      by auto
    moreover have "seek_loop s (int (Suc n)) = seek_loop s1 (int n)"
      using step running seek_loop_step [of s "int (Suc n)" s1] by simp
    ultimately show ?thesis using count1 disc1 pend1 False by simp
  qed
qed

lemma stream_seek_beyond:
  assumes "buffer_ok s" and "is_I s" and "stream_size s \<le> i"
  shows "i - stream_size s < int (pending s) \<Longrightarrow>
      \<exists>s'. stream_seek s i = Inr s' \<and> is_I s' \<and> stream_index s' = i
        \<and> stream_size s' = i + 1
        \<and> int (pending s') = int (pending s) - (i - stream_size s + 1)"
    and "int (pending s) \<le> i - stream_size s \<Longrightarrow>
      \<exists>s'. stream_seek s i = Inr s' \<and> stream_is_at_end s' \<and> stream_index s' = stream_size s'
        \<and> stream_size s' = stream_size s + int (pending s) \<and> li_is_at_end (iterator s')"
proof -
  let ?s1 = "s\<lparr>buffer := fifo_move_to_index (fifo_count (buffer s) - 1) (buffer s)\<rparr>"
  define n where "n = nat (i - stream_size s) + 1"
  from assms(1,2) have count: "0 < fifo_count (buffer s)"
    by (simp add: is_I_iff)
  then have last1: "at_last ?s1"
    by (simp add: at_last_def fifo_move_to_index_def fifo_count_def)
  have pend1: "pending ?s1 = pending s" by (simp add: pending_def)
  have count1: "fifo_count (buffer ?s1) = fifo_count (buffer s)"
    and disc1: "fifo_discarded (buffer ?s1) = fifo_discarded (buffer s)"
    by (simp_all add: fifo_move_to_index_def fifo_count_def)
  have "int (length (fifo_items (buffer s)) - Suc 0) = int (length (fifo_items (buffer s))) - 1"
    using count by (cases "fifo_items (buffer s)") (simp_all add: fifo_count_def)
  then have "stream_index ?s1 = stream_size s - 1"
    using count
    by (simp add: stream_index_def is_I_def stream_has_current_item_def fifo_has_current_item_def
        fifo_move_to_index_def fifo_count_def fifo_current_global_index_def stream_size_def
        fifo_global_count_def)
  then have diff: "i - stream_index ?s1 = int n"
    using assms(3) by (simp add: n_def)
  have "0 \<le> stream_size s" by (simp add: stream_size_def)
  with assms(3) have "\<not> i < 0" by simp
  then have seek: "stream_seek s i = seek_loop ?s1 (int n)"
    using assms(2,3) diff by (simp add: stream_seek_def Let_def)
  show "\<exists>s'. stream_seek s i = Inr s' \<and> is_I s' \<and> stream_index s' = i
        \<and> stream_size s' = i + 1
        \<and> int (pending s') = int (pending s) - (i - stream_size s + 1)"
    if "i - stream_size s < int (pending s)"
  proof -
    from that assms(3) have "n \<le> pending s" by (simp add: n_def)
    with pend1 have "n \<le> pending ?s1" by simp
    from seek_loop_pull [OF last1 this] obtain s' where loop: "seek_loop ?s1 (int n) = Inr s'"
      and last': "at_last s'"
      and count': "fifo_count (buffer s') = fifo_count (buffer ?s1) + n"
      and disc': "fifo_discarded (buffer s') = fifo_discarded (buffer ?s1)"
      and pend': "pending s' = pending ?s1 - n"
      by auto
    from last' have I': "is_I s'"
      by (simp add: at_last_def is_I_def stream_has_current_item_def fifo_has_current_item_def)
    have size': "stream_size s' = i + 1"
      using count' disc' count1 disc1 assms(3)
      by (simp add: stream_size_def fifo_global_count_def n_def)
    have "stream_index s' = stream_size s' - 1"
      using I' last'
      by (simp add: stream_index_def at_last_def fifo_current_global_index_def
          stream_size_def fifo_global_count_def)
    moreover have "int (pending s') = int (pending s) - (i - stream_size s + 1)"
      using pend' pend1 that assms(3) by (simp add: n_def)
    ultimately show ?thesis using seek loop I' size' by simp
  qed
  show "\<exists>s'. stream_seek s i = Inr s' \<and> stream_is_at_end s' \<and> stream_index s' = stream_size s'
        \<and> stream_size s' = stream_size s + int (pending s) \<and> li_is_at_end (iterator s')"
    if "int (pending s) \<le> i - stream_size s"
  proof -
    from that have "pending s < n" by (simp add: n_def)
    with pend1 have "pending ?s1 < n" by simp
    moreover from assms(1) have "\<not> li_is_at_start (iterator ?s1)" by (simp add: buffer_ok_def)
    ultimately obtain s' where loop: "seek_loop ?s1 (int n) = Inr s'"
      and started': "fifo_started (buffer s')"
      and pos': "fifo_position (buffer s') = fifo_count (buffer s')"
      and count': "fifo_count (buffer s') = fifo_count (buffer ?s1) + pending ?s1"
      and disc': "fifo_discarded (buffer s') = fifo_discarded (buffer ?s1)"
      and pend': "li_is_at_end (iterator s')"
      using seek_loop_exhaust [OF last1] by blast
    have "stream_is_at_end s'"
      using started' pos' by (simp add: stream_is_at_end_def fifo_is_at_end_def)
    moreover have "stream_index s' = stream_size s'"
      using started' pos'
      by (simp add: stream_index_def is_I_def stream_has_current_item_def
          fifo_has_current_item_def)
    moreover have "stream_size s' = stream_size s + int (pending s)"
      using count' disc' count1 disc1 pend1 by (simp add: stream_size_def fifo_global_count_def)
    ultimately show ?thesis using seek loop pend' by simp
  qed
qed

lemma stream_seek_inside:
  assumes "buffer_ok s" and "lowest_index_in_buffer s \<le> i" and "i < stream_size s"
  shows "\<exists>s'. stream_seek s i = Inr s' \<and> is_I s' \<and> stream_index s' = i
    \<and> stream_size s' = stream_size s \<and> iterator s' = iterator s
    \<and> fifo_items (buffer s') = fifo_items (buffer s)"
proof -
  let ?s' = "s\<lparr>buffer := fifo_move_to_global_index (nat i) (buffer s)\<rparr>"
  from assms(2,3) have inb: "index_is_in_buffer s i" by (simp add: index_is_in_buffer_def)
  from assms(2) have nonneg: "\<not> i < 0" by (simp add: lowest_index_in_buffer_def fifo_global_count_def)
  from assms(2,3) have "0 < fifo_count (buffer s)"
    by (simp add: lowest_index_in_buffer_def stream_size_def)
  with assms(1) have "is_I s \<or> is_E s"
    by (auto simp: is_I_iff is_E_def is_at_end_iff fifo_is_empty_def buffer_ok_def)
  then have "stream_seek s i = Inr ?s'"
    using inb nonneg assms(3) by (auto simp: stream_seek_def)
  moreover have "is_I ?s'" and "stream_index ?s' = i"
    using assms(2,3)
    by (auto simp: is_I_def stream_has_current_item_def fifo_has_current_item_def
        fifo_move_to_global_index_def fifo_move_to_index_def fifo_count_def stream_index_def
        fifo_current_global_index_def lowest_index_in_buffer_def stream_size_def
        fifo_global_count_def)
  moreover have "stream_size ?s' = stream_size s"
    by (simp add: stream_size_def fifo_global_count_def fifo_move_to_global_index_def
        fifo_move_to_index_def fifo_count_def)
  ultimately show ?thesis
    by (simp add: fifo_move_to_global_index_def fifo_move_to_index_def)
qed

lemma stream_seek_released:
  assumes "buffer_ok s" and "0 \<le> i" and "i < lowest_index_in_buffer s"
  shows "stream_seek s i = Inl (Exception ''Cannot seek to released index.'')"
  using assms
  by (auto simp: stream_seek_def index_is_in_buffer_def lowest_index_in_buffer_def
      stream_size_def)

lemma stream_seek_at_end:
  assumes "buffer_ok s" and "\<not> is_I s" and "stream_size s \<le> i"
  shows "stream_seek s i = Inr s"
proof -
  have "0 \<le> stream_size s" by (simp add: stream_size_def)
  with assms(3) have "\<not> i < 0" by simp
  with assms(2,3) show ?thesis by (simp add: stream_seek_def)
qed

subsection \<open>The token adapter\<close>

text \<open>The same steps for the methods as \<open>IteratorToTokenStreamAdapter\<close> runs them.\<close>

lemma token_initialize_buffer_ok:
  "fifo_position (buffer s) = 0 \<Longrightarrow> \<not> fifo_started (buffer s)
     \<Longrightarrow> token_initialize_buffer s = Inr s' \<Longrightarrow> buffer_ok s'"
proof (induction s rule: token_initialize_buffer.induct)
  case (1 s)
  show ?case
  proof (cases "li_is_at_start (iterator s)")
    case True
    with "1.prems" obtain it where it: "li_move_to_next (iterator s) = Inr it"
      and init: "token_initialize_buffer (s\<lparr>iterator := it\<rparr>) = Inr s'"
      by (auto simp: token_initialize_buffer.simps [of s] split: sum.splits)
    from "1.IH" [OF True it _ _ init] "1.prems" show ?thesis by simp
  next
    case False
    with "1.prems" show ?thesis
      by (auto simp: token_initialize_buffer.simps [of s] buffer_ok_def fifo_move_to_next_def
          fifo_push_def fifo_count_def split: if_splits sum.splits)
  qed
qed

lemma token_stream_move_to_next_ok:
  assumes "buffer_ok s" and "token_stream_move_to_next s = Inr s'"
  shows "buffer_ok s'"
proof (cases "has_more_buffer s")
  case True
  with assms show ?thesis
    by (auto simp: token_stream_move_to_next_def buffer_ok_def fifo_move_to_next_def
        fifo_count_def)
next
  case False
  with assms(2) obtain s1 where load: "token_load_one_item_from_iterator s = Inr s1"
    and s': "s' = s1\<lparr>buffer := fifo_move_to_next (buffer s1)\<rparr>"
    by (auto simp: token_stream_move_to_next_def split: sum.splits)
  from token_load_one_item_from_iterator_cases [OF load] assms(1) s' show ?thesis
    by (auto simp: buffer_ok_def fifo_move_to_next_def fifo_count_def)
qed

lemma token_seek_loop_ok:
  "buffer_ok s \<Longrightarrow> token_seek_loop s diff = Inr s' \<Longrightarrow> buffer_ok s'"
proof (induction s diff rule: token_seek_loop.induct)
  case (1 s diff)
  show ?case
  proof (cases "diff = 0 \<or> stream_is_at_end s")
    case True
    with "1.prems" show ?thesis by (auto simp: token_seek_loop.simps [of s diff])
  next
    case False
    with "1.prems" obtain s1 where s1: "token_stream_move_to_next s = Inr s1"
      and loop: "token_seek_loop s1 (diff - 1) = Inr s'"
      by (auto simp: token_seek_loop.simps [of s diff] split: sum.splits)
    from "1.IH" [OF False s1 token_stream_move_to_next_ok [OF "1.prems"(1) s1] loop] show ?thesis .
  qed
qed

lemma token_stream_seek_ok:
  assumes "buffer_ok s" and "token_stream_seek s index = Inr s'"
  shows "buffer_ok s'"
proof -
  have a: "buffer_ok (s\<lparr>buffer := fifo_move_to_index (fifo_count (buffer s) - 1) (buffer s)\<rparr>)"
    using assms(1) by (simp add: buffer_ok_def fifo_move_to_index_def fifo_count_def)
  have b: "buffer_ok (s\<lparr>buffer := fifo_move_to_global_index (nat index) (buffer s)\<rparr>)"
    if "index_is_in_buffer s index"
    using that assms(1)
    by (auto simp: buffer_ok_def fifo_move_to_global_index_def fifo_move_to_index_def
        fifo_count_def index_is_in_buffer_def lowest_index_in_buffer_def stream_size_def
        fifo_global_count_def)
  from assms(2) show ?thesis
    using a b assms(1) token_seek_loop_ok
    by (auto simp: token_stream_seek_def Let_def split: if_splits)
qed

lemma token_reachable_buffer_ok: "token_reachable s \<Longrightarrow> buffer_ok s"
proof (induction rule: token_reachable.induct)
  case (token_made it s)
  then show ?case
    using token_initialize_buffer_ok [of "\<lparr>buffer = fifo_make, iterator = it\<rparr>" s]
    by (simp add: token_stream_make_def fifo_make_def)
next
  case (token_consumed s s')
  then show ?case
    by (auto simp: token_consume_def split: if_splits intro: token_stream_move_to_next_ok)
next
  case (token_sought s index s')
  then show ?case by (auto intro: token_stream_seek_ok)
next
  case (token_marked s marker s')
  then show ?case by (auto intro: mark_ok)
next
  case (token_released s marker)
  then show ?case by (auto intro: release_ok)
qed

lemma token_stream_move_to_next_pull:
  assumes "at_last s" and "0 < token_pending s"
  shows "\<exists>s'. token_stream_move_to_next s = Inr s' \<and> at_last s'
    \<and> fifo_count (buffer s') = fifo_count (buffer s) + 1
    \<and> fifo_discarded (buffer s') = fifo_discarded (buffer s)
    \<and> token_pending s' = token_pending s - 1 \<and> \<not> li_is_at_start (iterator s')
    \<and> dropWhile not_EOF (li_list (iterator s')) = dropWhile not_EOF (li_list (iterator s))"
proof -
  from assms(2) obtain x y ys where list: "li_list (iterator s) = x # y # ys"
    and started: "\<not> li_is_at_start (iterator s)"
    and x: "type' x \<noteq> EOF" and y: "type' y \<noteq> EOF"
    by (cases "li_list (iterator s)"; cases "tl (li_list (iterator s))")
      (auto simp: token_pending_def li_has_current_item_def not_EOF_def split: if_splits)
  let ?it = "(iterator s)\<lparr>li_list := y # ys\<rparr>"
  have "token_load_one_item_from_iterator s
      = Inr (s\<lparr>iterator := ?it, buffer := fifo_push y (buffer s)\<rparr>)"
    using list started x y
    by (simp add: token_load_one_item_from_iterator_def iterator_is_at_eof_token_def
        li_has_current_item_def li_move_to_next_def li_current_item_def subscript_def)
  moreover have "\<not> has_more_buffer s"
    using assms(1) by (simp add: has_more_buffer_def at_last_def fifo_current_index_def)
  ultimately have "token_stream_move_to_next s
      = Inr (s\<lparr>iterator := ?it, buffer := fifo_move_to_next (fifo_push y (buffer s))\<rparr>)"
    by (simp add: token_stream_move_to_next_def)
  then show ?thesis
    using assms(1) list started x y
    by (simp add: at_last_def fifo_move_to_next_def fifo_push_def fifo_count_def
        token_pending_def li_has_current_item_def not_EOF_def)
qed

lemma token_stream_move_to_next_finish:
  assumes "at_last s" and "token_pending s = 0" and "\<not> li_is_at_start (iterator s)"
  shows "\<exists>s'. token_stream_move_to_next s = Inr s' \<and> fifo_started (buffer s')
    \<and> fifo_position (buffer s') = fifo_count (buffer s')
    \<and> fifo_count (buffer s') = fifo_count (buffer s)
    \<and> fifo_discarded (buffer s') = fifo_discarded (buffer s)
    \<and> token_pending s' = 0 \<and> \<not> li_is_at_start (iterator s')
    \<and> li_list (iterator s') = dropWhile not_EOF (li_list (iterator s))"
proof -
  have nomore: "\<not> has_more_buffer s"
    using assms(1) by (simp add: has_more_buffer_def at_last_def fifo_current_index_def)
  have "\<exists>s1. token_load_one_item_from_iterator s = Inr s1 \<and> buffer s1 = buffer s
      \<and> token_pending s1 = 0 \<and> \<not> li_is_at_start (iterator s1)
      \<and> li_list (iterator s1) = dropWhile not_EOF (li_list (iterator s))"
  proof (cases "li_list (iterator s)")
    case Nil
    with assms(3) show ?thesis
      by (simp add: token_load_one_item_from_iterator_def li_has_current_item_def
          token_pending_def)
  next
    case (Cons x rest)
    show ?thesis
    proof (cases "type' x = EOF")
      case True
      with Cons assms(3) show ?thesis
        by (simp add: token_load_one_item_from_iterator_def iterator_is_at_eof_token_def
            li_has_current_item_def li_current_item_def subscript_def token_pending_def
            not_EOF_def)
    next
      case False
      with Cons assms(2,3) have rest: "rest = [] \<or> type' (hd rest) = EOF"
        by (cases rest)
          (auto simp: token_pending_def li_has_current_item_def not_EOF_def split: if_splits)
      let ?s1 = "s\<lparr>iterator := (iterator s)\<lparr>li_list := rest\<rparr>\<rparr>"
      have "token_load_one_item_from_iterator s = Inr ?s1"
        using Cons False rest assms(3)
        by (cases rest)
          (auto simp: token_load_one_item_from_iterator_def iterator_is_at_eof_token_def
            li_has_current_item_def li_current_item_def li_move_to_next_def subscript_def)
      moreover have "token_pending ?s1 = 0"
        using rest by (cases rest) (auto simp: token_pending_def not_EOF_def)
      moreover have "li_list (iterator ?s1) = dropWhile not_EOF (li_list (iterator s))"
        using Cons False rest by (cases rest) (auto simp: not_EOF_def)
      ultimately show ?thesis using assms(3) by simp
    qed
  qed
  then obtain s1 where "token_load_one_item_from_iterator s = Inr s1"
    and "buffer s1 = buffer s" and "token_pending s1 = 0"
    and "\<not> li_is_at_start (iterator s1)"
    and "li_list (iterator s1) = dropWhile not_EOF (li_list (iterator s))"
    by blast
  moreover have "token_pending (s1\<lparr>buffer := q\<rparr>) = token_pending s1" for q
    by (simp add: token_pending_def)
  ultimately show ?thesis
    using nomore assms(1)
    by (simp add: token_stream_move_to_next_def at_last_def fifo_move_to_next_def
        fifo_count_def)
qed

lemma token_seek_loop_at_end:
  "fifo_started (buffer s) \<Longrightarrow> fifo_position (buffer s) = fifo_count (buffer s)
     \<Longrightarrow> token_seek_loop s diff = Inr s"
  by (simp add: token_seek_loop.simps [of s diff] stream_is_at_end_def fifo_is_at_end_def)

lemma token_seek_loop_step:
  "\<not> stream_is_at_end s \<Longrightarrow> diff \<noteq> 0 \<Longrightarrow> token_stream_move_to_next s = Inr s1
     \<Longrightarrow> token_seek_loop s diff = token_seek_loop s1 (diff - 1)"
  by (simp add: token_seek_loop.simps [of s diff])

lemma token_seek_loop_pull:
  assumes "at_last s" and "n \<le> token_pending s"
  shows "\<exists>s'. token_seek_loop s (int n) = Inr s' \<and> at_last s'
    \<and> fifo_count (buffer s') = fifo_count (buffer s) + n
    \<and> fifo_discarded (buffer s') = fifo_discarded (buffer s)
    \<and> token_pending s' = token_pending s - n
    \<and> (\<not> li_is_at_start (iterator s) \<longrightarrow> \<not> li_is_at_start (iterator s'))
    \<and> dropWhile not_EOF (li_list (iterator s')) = dropWhile not_EOF (li_list (iterator s))"
  using assms
proof (induction n arbitrary: s)
  case 0
  then show ?case by (simp add: token_seek_loop.simps [of s 0])
next
  case (Suc n)
  from Suc.prems obtain s1 where step: "token_stream_move_to_next s = Inr s1" and last1: "at_last s1"
    and count1: "fifo_count (buffer s1) = fifo_count (buffer s) + 1"
    and disc1: "fifo_discarded (buffer s1) = fifo_discarded (buffer s)"
    and pend1: "token_pending s1 = token_pending s - 1" and "\<not> li_is_at_start (iterator s1)"
    and drop1: "dropWhile not_EOF (li_list (iterator s1)) = dropWhile not_EOF (li_list (iterator s))"
    using token_stream_move_to_next_pull [of s] by auto
  from Suc.prems pend1 have "n \<le> token_pending s1" by simp
  from Suc.IH [OF last1 this] \<open>\<not> li_is_at_start (iterator s1)\<close>
  obtain s' where loop: "token_seek_loop s1 (int n) = Inr s'"
    and "at_last s'" and "fifo_count (buffer s') = fifo_count (buffer s1) + n"
    and "fifo_discarded (buffer s') = fifo_discarded (buffer s1)"
    and "token_pending s' = token_pending s1 - n" and "\<not> li_is_at_start (iterator s')"
    and "dropWhile not_EOF (li_list (iterator s')) = dropWhile not_EOF (li_list (iterator s1))"
    by auto
  moreover have "\<not> stream_is_at_end s"
    using Suc.prems(1) by (simp add: at_last_def stream_is_at_end_def fifo_is_at_end_def)
  then have "token_seek_loop s (int (Suc n)) = token_seek_loop s1 (int n)"
    using step token_seek_loop_step [of s "int (Suc n)" s1] by simp
  ultimately show ?case using count1 disc1 pend1 drop1 by simp
qed

lemma token_seek_loop_exhaust:
  assumes "at_last s" and "token_pending s < n" and "\<not> li_is_at_start (iterator s)"
  shows "\<exists>s'. token_seek_loop s (int n) = Inr s' \<and> fifo_started (buffer s')
    \<and> fifo_position (buffer s') = fifo_count (buffer s')
    \<and> fifo_count (buffer s') = fifo_count (buffer s) + token_pending s
    \<and> fifo_discarded (buffer s') = fifo_discarded (buffer s)
    \<and> token_pending s' = 0 \<and> \<not> li_is_at_start (iterator s')
    \<and> li_list (iterator s') = dropWhile not_EOF (li_list (iterator s))"
  using assms
proof (induction n arbitrary: s)
  case 0
  then show ?case by simp
next
  case (Suc n)
  have running: "\<not> stream_is_at_end s"
    using Suc.prems(1) by (simp add: at_last_def stream_is_at_end_def fifo_is_at_end_def)
  show ?case
  proof (cases "token_pending s = 0")
    case True
    from token_stream_move_to_next_finish [OF Suc.prems(1) True Suc.prems(3)]
    obtain s1 where step: "token_stream_move_to_next s = Inr s1" and "fifo_started (buffer s1)"
      and "fifo_position (buffer s1) = fifo_count (buffer s1)"
      and "fifo_count (buffer s1) = fifo_count (buffer s)"
      and "fifo_discarded (buffer s1) = fifo_discarded (buffer s)" and "token_pending s1 = 0"
      and "\<not> li_is_at_start (iterator s1)"
      and "li_list (iterator s1) = dropWhile not_EOF (li_list (iterator s))"
      by auto
    moreover from this have "token_seek_loop s1 (int n) = Inr s1" by (intro token_seek_loop_at_end)
    moreover have "token_seek_loop s (int (Suc n)) = token_seek_loop s1 (int n)"
      using step running token_seek_loop_step [of s "int (Suc n)" s1] by simp
    ultimately show ?thesis using True by simp
  next
    case False
    then obtain s1 where step: "token_stream_move_to_next s = Inr s1" and last1: "at_last s1"
      and count1: "fifo_count (buffer s1) = fifo_count (buffer s) + 1"
      and disc1: "fifo_discarded (buffer s1) = fifo_discarded (buffer s)"
      and pend1: "token_pending s1 = token_pending s - 1"
      and start1: "\<not> li_is_at_start (iterator s1)"
      and drop1: "dropWhile not_EOF (li_list (iterator s1))
        = dropWhile not_EOF (li_list (iterator s))"
      using token_stream_move_to_next_pull [of s] Suc.prems(1) by auto
    from Suc.prems False pend1 have "token_pending s1 < n" by simp
    from Suc.IH [OF last1 this start1] obtain s' where "token_seek_loop s1 (int n) = Inr s'"
      and "fifo_started (buffer s')" and "fifo_position (buffer s') = fifo_count (buffer s')"
      and "fifo_count (buffer s') = fifo_count (buffer s1) + token_pending s1"
      and "fifo_discarded (buffer s') = fifo_discarded (buffer s1)" and "token_pending s' = 0"
      and "\<not> li_is_at_start (iterator s')"
      and "li_list (iterator s') = dropWhile not_EOF (li_list (iterator s1))"
      by auto
    moreover have "token_seek_loop s (int (Suc n)) = token_seek_loop s1 (int n)"
      using step running token_seek_loop_step [of s "int (Suc n)" s1] by simp
    ultimately show ?thesis using count1 disc1 pend1 drop1 False by simp
  qed
qed

lemma token_stream_seek_beyond:
  assumes "buffer_ok s" and "is_I s" and "stream_size s \<le> i"
  shows "i - stream_size s < int (token_pending s) \<Longrightarrow>
      \<exists>s'. token_stream_seek s i = Inr s' \<and> is_I s' \<and> stream_index s' = i
        \<and> stream_size s' = i + 1
        \<and> int (token_pending s') = int (token_pending s) - (i - stream_size s + 1)"
    and "int (token_pending s) \<le> i - stream_size s \<Longrightarrow>
      \<exists>s'. token_stream_seek s i = Inr s' \<and> stream_is_at_end s' \<and> stream_index s' = stream_size s'
        \<and> stream_size s' = stream_size s + int (token_pending s)
        \<and> li_list (iterator s') = dropWhile not_EOF (li_list (iterator s))"
proof -
  let ?s1 = "s\<lparr>buffer := fifo_move_to_index (fifo_count (buffer s) - 1) (buffer s)\<rparr>"
  define n where "n = nat (i - stream_size s) + 1"
  from assms(1,2) have count: "0 < fifo_count (buffer s)"
    by (simp add: is_I_iff)
  then have last1: "at_last ?s1"
    by (simp add: at_last_def fifo_move_to_index_def fifo_count_def)
  have pend1: "token_pending ?s1 = token_pending s" by (simp add: token_pending_def)
  have count1: "fifo_count (buffer ?s1) = fifo_count (buffer s)"
    and disc1: "fifo_discarded (buffer ?s1) = fifo_discarded (buffer s)"
    by (simp_all add: fifo_move_to_index_def fifo_count_def)
  have "int (length (fifo_items (buffer s)) - Suc 0) = int (length (fifo_items (buffer s))) - 1"
    using count by (cases "fifo_items (buffer s)") (simp_all add: fifo_count_def)
  then have "stream_index ?s1 = stream_size s - 1"
    using count
    by (simp add: stream_index_def is_I_def stream_has_current_item_def fifo_has_current_item_def
        fifo_move_to_index_def fifo_count_def fifo_current_global_index_def stream_size_def
        fifo_global_count_def)
  then have diff: "i - stream_index ?s1 = int n"
    using assms(3) by (simp add: n_def)
  have "0 \<le> stream_size s" by (simp add: stream_size_def)
  with assms(3) have "\<not> i < 0" by simp
  then have seek: "token_stream_seek s i = token_seek_loop ?s1 (int n)"
    using assms(2,3) diff by (simp add: token_stream_seek_def Let_def)
  show "\<exists>s'. token_stream_seek s i = Inr s' \<and> is_I s' \<and> stream_index s' = i
        \<and> stream_size s' = i + 1
        \<and> int (token_pending s') = int (token_pending s) - (i - stream_size s + 1)"
    if "i - stream_size s < int (token_pending s)"
  proof -
    from that assms(3) have "n \<le> token_pending s" by (simp add: n_def)
    with pend1 have "n \<le> token_pending ?s1" by simp
    from token_seek_loop_pull [OF last1 this] obtain s' where loop: "token_seek_loop ?s1 (int n) = Inr s'"
      and last': "at_last s'"
      and count': "fifo_count (buffer s') = fifo_count (buffer ?s1) + n"
      and disc': "fifo_discarded (buffer s') = fifo_discarded (buffer ?s1)"
      and pend': "token_pending s' = token_pending ?s1 - n"
      by auto
    from last' have I': "is_I s'"
      by (simp add: at_last_def is_I_def stream_has_current_item_def fifo_has_current_item_def)
    have size': "stream_size s' = i + 1"
      using count' disc' count1 disc1 assms(3)
      by (simp add: stream_size_def fifo_global_count_def n_def)
    have "stream_index s' = stream_size s' - 1"
      using I' last'
      by (simp add: stream_index_def at_last_def fifo_current_global_index_def
          stream_size_def fifo_global_count_def)
    moreover have "int (token_pending s') = int (token_pending s) - (i - stream_size s + 1)"
      using pend' pend1 that assms(3) by (simp add: n_def)
    ultimately show ?thesis using seek loop I' size' by simp
  qed
  show "\<exists>s'. token_stream_seek s i = Inr s' \<and> stream_is_at_end s' \<and> stream_index s' = stream_size s'
        \<and> stream_size s' = stream_size s + int (token_pending s)
        \<and> li_list (iterator s') = dropWhile not_EOF (li_list (iterator s))"
    if "int (token_pending s) \<le> i - stream_size s"
  proof -
    from that have "token_pending s < n" by (simp add: n_def)
    with pend1 have "token_pending ?s1 < n" by simp
    moreover from assms(1) have "\<not> li_is_at_start (iterator ?s1)" by (simp add: buffer_ok_def)
    ultimately obtain s' where loop: "token_seek_loop ?s1 (int n) = Inr s'"
      and started': "fifo_started (buffer s')"
      and pos': "fifo_position (buffer s') = fifo_count (buffer s')"
      and count': "fifo_count (buffer s') = fifo_count (buffer ?s1) + token_pending ?s1"
      and disc': "fifo_discarded (buffer s') = fifo_discarded (buffer ?s1)"
      and pend': "li_list (iterator s') = dropWhile not_EOF (li_list (iterator ?s1))"
      using token_seek_loop_exhaust [OF last1] by blast
    have "stream_is_at_end s'"
      using started' pos' by (simp add: stream_is_at_end_def fifo_is_at_end_def)
    moreover have "stream_index s' = stream_size s'"
      using started' pos'
      by (simp add: stream_index_def is_I_def stream_has_current_item_def
          fifo_has_current_item_def)
    moreover have "stream_size s' = stream_size s + int (token_pending s)"
      using count' disc' count1 disc1 pend1 by (simp add: stream_size_def fifo_global_count_def)
    ultimately show ?thesis using seek loop pend' by simp
  qed
qed

lemma token_stream_seek_inside:
  assumes "buffer_ok s" and "lowest_index_in_buffer s \<le> i" and "i < stream_size s"
  shows "\<exists>s'. token_stream_seek s i = Inr s' \<and> is_I s' \<and> stream_index s' = i
    \<and> stream_size s' = stream_size s \<and> iterator s' = iterator s
    \<and> fifo_items (buffer s') = fifo_items (buffer s)"
proof -
  let ?s' = "s\<lparr>buffer := fifo_move_to_global_index (nat i) (buffer s)\<rparr>"
  from assms(2,3) have inb: "index_is_in_buffer s i" by (simp add: index_is_in_buffer_def)
  from assms(2) have nonneg: "\<not> i < 0" by (simp add: lowest_index_in_buffer_def fifo_global_count_def)
  from assms(2,3) have "0 < fifo_count (buffer s)"
    by (simp add: lowest_index_in_buffer_def stream_size_def)
  with assms(1) have "is_I s \<or> is_E s"
    by (auto simp: is_I_iff is_E_def is_at_end_iff fifo_is_empty_def buffer_ok_def)
  then have "token_stream_seek s i = Inr ?s'"
    using inb nonneg assms(3) by (auto simp: token_stream_seek_def)
  moreover have "is_I ?s'" and "stream_index ?s' = i"
    using assms(2,3)
    by (auto simp: is_I_def stream_has_current_item_def fifo_has_current_item_def
        fifo_move_to_global_index_def fifo_move_to_index_def fifo_count_def stream_index_def
        fifo_current_global_index_def lowest_index_in_buffer_def stream_size_def
        fifo_global_count_def)
  moreover have "stream_size ?s' = stream_size s"
    by (simp add: stream_size_def fifo_global_count_def fifo_move_to_global_index_def
        fifo_move_to_index_def fifo_count_def)
  ultimately show ?thesis
    by (simp add: fifo_move_to_global_index_def fifo_move_to_index_def)
qed

lemma token_stream_seek_released:
  assumes "buffer_ok s" and "0 \<le> i" and "i < lowest_index_in_buffer s"
  shows "token_stream_seek s i = Inl (Exception ''Cannot seek to released index.'')"
  using assms
  by (auto simp: token_stream_seek_def index_is_in_buffer_def lowest_index_in_buffer_def
      stream_size_def)

lemma token_stream_seek_at_end:
  assumes "buffer_ok s" and "\<not> is_I s" and "stream_size s \<le> i"
  shows "token_stream_seek s i = Inr s"
proof -
  have "0 \<le> stream_size s" by (simp add: stream_size_def)
  with assms(3) have "\<not> i < 0" by simp
  with assms(2,3) show ?thesis by (simp add: token_stream_seek_def)
qed

section \<open>\<open>seek\<close>\<close>

text \<open>
  C3, as stated: \<open>seek(i)\<close> with \<open>i\<close> greater than or equal to the current size moves the
  stream to its end state, pulling the source to exhaustion. The size is the number of items
  buffered so far, not the length of the source. The adapter made over the source \<open>abc\<close> has
  size 1; \<open>seek(1)\<close> succeeds and leaves it in state I at index 1 on the item \<open>b\<close>, with the
  item \<open>c\<close> still in the source.
\<close>

theorem seek_at_size_counterexample:
  "stream_make (ListIterator_make (str_of ''abc'')) = Inr abc_made
   \<and> stream_size abc_made = 1
   \<and> stream_seek abc_made 1 = Inr abc_sought
   \<and> \<not> stream_is_at_end abc_sought
   \<and> stream_current_item abc_sought = Inr 98
   \<and> li_list (iterator abc_sought) = [98, 99]"
  by code_simp

lemma char_seek_cases:
  assumes "reachable s"
  shows "(i < 0 \<longrightarrow>
       stream_seek s i = Inl (Exception ''Cannot seek to negative index.''))
    \<and> (0 \<le> i \<and> i < lowest_index_in_buffer s \<longrightarrow>
         stream_seek s i = Inl (Exception ''Cannot seek to released index.''))
    \<and> (lowest_index_in_buffer s \<le> i \<and> i < stream_size s \<longrightarrow>
         (\<exists>s'. stream_seek s i = Inr s' \<and> is_I s' \<and> stream_index s' = i
            \<and> stream_size s' = stream_size s \<and> iterator s' = iterator s))
    \<and> (stream_size s \<le> i \<and> \<not> is_I s \<longrightarrow> stream_seek s i = Inr s)
    \<and> (stream_size s \<le> i \<and> is_I s \<and> i - stream_size s < int (pending s) \<longrightarrow>
         (\<exists>s'. stream_seek s i = Inr s' \<and> is_I s' \<and> stream_index s' = i
            \<and> stream_size s' = i + 1
            \<and> int (pending s') = int (pending s) - (i - stream_size s + 1)))
    \<and> (stream_size s \<le> i \<and> is_I s \<and> int (pending s) \<le> i - stream_size s \<longrightarrow>
         (\<exists>s'. stream_seek s i = Inr s' \<and> stream_is_at_end s'
            \<and> stream_index s' = stream_size s'
            \<and> stream_size s' = stream_size s + int (pending s)
            \<and> li_is_at_end (iterator s')))"
proof -
  from assms have ok: "buffer_ok s" by (rule reachable_buffer_ok)
  have "stream_seek s i = Inl (Exception ''Cannot seek to negative index.'')" if "i < 0"
    using that by (simp add: stream_seek_def)
  moreover have "stream_seek s i = Inl (Exception ''Cannot seek to released index.'')"
    if "0 \<le> i \<and> i < lowest_index_in_buffer s"
    using that ok by (simp add: stream_seek_released)
  moreover have "\<exists>s'. stream_seek s i = Inr s' \<and> is_I s' \<and> stream_index s' = i
        \<and> stream_size s' = stream_size s \<and> iterator s' = iterator s"
    if "lowest_index_in_buffer s \<le> i \<and> i < stream_size s"
    using stream_seek_inside [OF ok, of i] that by blast
  moreover have "stream_seek s i = Inr s" if "stream_size s \<le> i \<and> \<not> is_I s"
    using that ok by (simp add: stream_seek_at_end)
  moreover have "\<exists>s'. stream_seek s i = Inr s' \<and> is_I s' \<and> stream_index s' = i
        \<and> stream_size s' = i + 1
        \<and> int (pending s') = int (pending s) - (i - stream_size s + 1)"
    if "stream_size s \<le> i \<and> is_I s \<and> i - stream_size s < int (pending s)"
    using stream_seek_beyond(1) [OF ok, of i] that by blast
  moreover have "\<exists>s'. stream_seek s i = Inr s' \<and> stream_is_at_end s'
        \<and> stream_index s' = stream_size s'
        \<and> stream_size s' = stream_size s + int (pending s)
        \<and> li_is_at_end (iterator s')"
    if "stream_size s \<le> i \<and> is_I s \<and> int (pending s) \<le> i - stream_size s"
    using stream_seek_beyond(2) [OF ok, of i] that by blast
  ultimately show ?thesis by blast
qed

lemma token_seek_cases:
  assumes "token_reachable s"
  shows "(i < 0 \<longrightarrow>
       token_stream_seek s i = Inl (Exception ''Cannot seek to negative index.''))
    \<and> (0 \<le> i \<and> i < lowest_index_in_buffer s \<longrightarrow>
         token_stream_seek s i = Inl (Exception ''Cannot seek to released index.''))
    \<and> (lowest_index_in_buffer s \<le> i \<and> i < stream_size s \<longrightarrow>
         (\<exists>s'. token_stream_seek s i = Inr s' \<and> is_I s' \<and> stream_index s' = i
            \<and> stream_size s' = stream_size s \<and> iterator s' = iterator s))
    \<and> (stream_size s \<le> i \<and> \<not> is_I s \<longrightarrow> token_stream_seek s i = Inr s)
    \<and> (stream_size s \<le> i \<and> is_I s \<and> i - stream_size s < int (token_pending s) \<longrightarrow>
         (\<exists>s'. token_stream_seek s i = Inr s' \<and> is_I s' \<and> stream_index s' = i
            \<and> stream_size s' = i + 1
            \<and> int (token_pending s') = int (token_pending s) - (i - stream_size s + 1)))
    \<and> (stream_size s \<le> i \<and> is_I s \<and> int (token_pending s) \<le> i - stream_size s \<longrightarrow>
         (\<exists>s'. token_stream_seek s i = Inr s' \<and> stream_is_at_end s'
            \<and> stream_index s' = stream_size s'
            \<and> stream_size s' = stream_size s + int (token_pending s)
            \<and> li_list (iterator s') = dropWhile not_EOF (li_list (iterator s))))"
proof -
  from assms have ok: "buffer_ok s" by (rule token_reachable_buffer_ok)
  have "token_stream_seek s i = Inl (Exception ''Cannot seek to negative index.'')" if "i < 0"
    using that by (simp add: token_stream_seek_def)
  moreover have "token_stream_seek s i = Inl (Exception ''Cannot seek to released index.'')"
    if "0 \<le> i \<and> i < lowest_index_in_buffer s"
    using that ok by (simp add: token_stream_seek_released)
  moreover have "\<exists>s'. token_stream_seek s i = Inr s' \<and> is_I s' \<and> stream_index s' = i
        \<and> stream_size s' = stream_size s \<and> iterator s' = iterator s"
    if "lowest_index_in_buffer s \<le> i \<and> i < stream_size s"
    using token_stream_seek_inside [OF ok, of i] that by blast
  moreover have "token_stream_seek s i = Inr s" if "stream_size s \<le> i \<and> \<not> is_I s"
    using that ok by (simp add: token_stream_seek_at_end)
  moreover have "\<exists>s'. token_stream_seek s i = Inr s' \<and> is_I s' \<and> stream_index s' = i
        \<and> stream_size s' = i + 1
        \<and> int (token_pending s') = int (token_pending s) - (i - stream_size s + 1)"
    if "stream_size s \<le> i \<and> is_I s \<and> i - stream_size s < int (token_pending s)"
    using token_stream_seek_beyond(1) [OF ok, of i] that by blast
  moreover have "\<exists>s'. token_stream_seek s i = Inr s' \<and> stream_is_at_end s'
        \<and> stream_index s' = stream_size s'
        \<and> stream_size s' = stream_size s + int (token_pending s)
        \<and> li_list (iterator s') = dropWhile not_EOF (li_list (iterator s))"
    if "stream_size s \<le> i \<and> is_I s \<and> int (token_pending s) \<le> i - stream_size s"
    using token_stream_seek_beyond(2) [OF ok, of i] that by blast
  ultimately show ?thesis by blast
qed

text \<open>
  C3, amended. In every reachable state of the character adapter and of the token adapter:
  \<open>seek(i)\<close> with negative \<open>i\<close> fails; with \<open>i\<close> not negative and below the lowest buffered
  global index it fails with the exception of a released index; with \<open>i\<close> among the
  buffered indices it puts the cursor on global index \<open>i\<close> and leaves the source alone.
  With \<open>i\<close> at or beyond the size it changes nothing when the adapter is at its end. In
  state I it pulls \<open>i - size + 1\<close> items and stops in state I on index \<open>i\<close>, the size then
  \<open>i + 1\<close>, when that many are pending; otherwise it pulls all pending items and is at its
  end, the size grown by their number. For the character adapter the pending items are all
  the items of the source after its current one, and in the last case the source is left
  at its end. For the token adapter they are the tokens after the current one and before
  the first \<open>EOF\<close> token, and in the last case the source is left on that token, which is
  not buffered: what remains of the source is that token and what follows it.
\<close>

theorem seek_cases:
  "(reachable s \<longrightarrow>
      (i < 0 \<longrightarrow> stream_seek s i = Inl (Exception ''Cannot seek to negative index.''))
      \<and> (0 \<le> i \<and> i < lowest_index_in_buffer s \<longrightarrow>
           stream_seek s i = Inl (Exception ''Cannot seek to released index.''))
      \<and> (lowest_index_in_buffer s \<le> i \<and> i < stream_size s \<longrightarrow>
           (\<exists>s'. stream_seek s i = Inr s' \<and> is_I s' \<and> stream_index s' = i
              \<and> stream_size s' = stream_size s \<and> iterator s' = iterator s))
      \<and> (stream_size s \<le> i \<and> \<not> is_I s \<longrightarrow> stream_seek s i = Inr s)
      \<and> (stream_size s \<le> i \<and> is_I s \<and> i - stream_size s < int (pending s) \<longrightarrow>
           (\<exists>s'. stream_seek s i = Inr s' \<and> is_I s' \<and> stream_index s' = i
              \<and> stream_size s' = i + 1
              \<and> int (pending s') = int (pending s) - (i - stream_size s + 1)))
      \<and> (stream_size s \<le> i \<and> is_I s \<and> int (pending s) \<le> i - stream_size s \<longrightarrow>
           (\<exists>s'. stream_seek s i = Inr s' \<and> stream_is_at_end s'
              \<and> stream_index s' = stream_size s'
              \<and> stream_size s' = stream_size s + int (pending s)
              \<and> li_is_at_end (iterator s'))))
   \<and> (token_reachable t \<longrightarrow>
      (i < 0 \<longrightarrow>
           token_stream_seek t i = Inl (Exception ''Cannot seek to negative index.''))
      \<and> (0 \<le> i \<and> i < lowest_index_in_buffer t \<longrightarrow>
           token_stream_seek t i = Inl (Exception ''Cannot seek to released index.''))
      \<and> (lowest_index_in_buffer t \<le> i \<and> i < stream_size t \<longrightarrow>
           (\<exists>s'. token_stream_seek t i = Inr s' \<and> is_I s' \<and> stream_index s' = i
              \<and> stream_size s' = stream_size t \<and> iterator s' = iterator t))
      \<and> (stream_size t \<le> i \<and> \<not> is_I t \<longrightarrow> token_stream_seek t i = Inr t)
      \<and> (stream_size t \<le> i \<and> is_I t \<and> i - stream_size t < int (token_pending t) \<longrightarrow>
           (\<exists>s'. token_stream_seek t i = Inr s' \<and> is_I s' \<and> stream_index s' = i
              \<and> stream_size s' = i + 1
              \<and> int (token_pending s') = int (token_pending t) - (i - stream_size t + 1)))
      \<and> (stream_size t \<le> i \<and> is_I t \<and> int (token_pending t) \<le> i - stream_size t \<longrightarrow>
           (\<exists>s'. token_stream_seek t i = Inr s' \<and> stream_is_at_end s'
              \<and> stream_index s' = stream_size s'
              \<and> stream_size s' = stream_size t + int (token_pending t)
              \<and> li_list (iterator s') = dropWhile not_EOF (li_list (iterator t)))))"
  using char_seek_cases [of s i] token_seek_cases [of t i] by blast

theorem seek_cases_witness:
  "(stream_seek abc_made (- 1) = Inl (Exception ''Cannot seek to negative index.'')
    \<and> token_stream_seek rule_made (- 1) = Inl (Exception ''Cannot seek to negative index.''))
   \<and> (stream_seek (release abc_sought 0) 0 = Inl (Exception ''Cannot seek to released index.'')
    \<and> token_stream_seek (release rule_sought 0) 0 = Inl (Exception ''Cannot seek to released index.''))
   \<and> ((\<exists>s'. stream_seek abc_sought 0 = Inr s' \<and> is_I s' \<and> stream_index s' = 0
          \<and> stream_size s' = 2 \<and> iterator s' = iterator abc_sought)
    \<and> (\<exists>s'. token_stream_seek rule_sought 0 = Inr s' \<and> is_I s' \<and> stream_index s' = 0
          \<and> stream_size s' = 2 \<and> iterator s' = iterator rule_sought))
   \<and> (stream_seek abc_done 7 = Inr abc_done
    \<and> token_stream_seek rule_done 7 = Inr rule_done)
   \<and> ((\<exists>s'. stream_seek abc_made 1 = Inr s' \<and> is_I s' \<and> stream_index s' = 1
          \<and> stream_size s' = 2 \<and> int (pending s') = 1)
    \<and> (\<exists>s'. token_stream_seek rule_made 1 = Inr s' \<and> is_I s' \<and> stream_index s' = 1
          \<and> stream_size s' = 2 \<and> int (token_pending s') = 0))
   \<and> ((\<exists>s'. stream_seek abc_made 5 = Inr s' \<and> stream_is_at_end s'
          \<and> stream_index s' = stream_size s' \<and> stream_size s' = 3
          \<and> li_is_at_end (iterator s'))
    \<and> (\<exists>s'. token_stream_seek rule_made 5 = Inr s' \<and> stream_is_at_end s'
          \<and> stream_index s' = stream_size s' \<and> stream_size s' = 2
          \<and> li_list (iterator s') = drop 2 rule_tokens))"
proof -
  have made: "reachable abc_made"
    by (rule reachable.made [of "ListIterator_make (str_of ''abc'')"]) code_simp
  have sought: "reachable abc_sought"
    by (rule reachable.sought [OF made, of 1]) code_simp
  have released: "reachable (release abc_sought 0)"
    by (rule reachable.released [OF sought])
  have exhausted: "reachable abc_done"
    by (rule reachable.sought [OF made, of 5]) code_simp
  have token_made: "token_reachable rule_made"
    by (rule token_reachable.token_made [of "ListIterator_make rule_tokens"]) code_simp
  have token_sought: "token_reachable rule_sought"
    by (rule token_reachable.token_sought [OF token_made, of 1]) code_simp
  have token_released: "token_reachable (release rule_sought 0)"
    by (rule token_reachable.token_released [OF token_sought])
  have token_exhausted: "token_reachable rule_done"
    by (rule token_reachable.token_sought [OF token_made, of 5]) code_simp
  have at_made: "stream_size abc_made = 1" "is_I abc_made" "pending abc_made = 2"
    "stream_size rule_made = 1" "is_I rule_made" "token_pending rule_made = 1"
    "dropWhile not_EOF (li_list (iterator rule_made)) = drop 2 rule_tokens"
    by code_simp+
  have at_sought: "lowest_index_in_buffer abc_sought = 0" "stream_size abc_sought = 2"
    "lowest_index_in_buffer rule_sought = 0" "stream_size rule_sought = 2"
    by code_simp+
  have at_released: "lowest_index_in_buffer (release abc_sought 0) = 1"
    "lowest_index_in_buffer (release rule_sought 0) = 1"
    by code_simp+
  have at_done: "stream_size abc_done = 3" "\<not> is_I abc_done"
    "stream_size rule_done = 2" "\<not> is_I rule_done"
    by code_simp+
  from seek_cases [of abc_made "- 1" rule_made] made token_made
  have negative: "stream_seek abc_made (- 1) = Inl (Exception ''Cannot seek to negative index.'')
      \<and> token_stream_seek rule_made (- 1) = Inl (Exception ''Cannot seek to negative index.'')"
    by simp
  from seek_cases [of "release abc_sought 0" 0 "release rule_sought 0"] released token_released
  have gone: "stream_seek (release abc_sought 0) 0 = Inl (Exception ''Cannot seek to released index.'')
      \<and> token_stream_seek (release rule_sought 0) 0 = Inl (Exception ''Cannot seek to released index.'')"
    by (simp add: at_released)
  from seek_cases [of abc_sought 0 rule_sought] sought token_sought
  have inside: "(\<exists>s'. stream_seek abc_sought 0 = Inr s' \<and> is_I s' \<and> stream_index s' = 0
          \<and> stream_size s' = 2 \<and> iterator s' = iterator abc_sought)
    \<and> (\<exists>s'. token_stream_seek rule_sought 0 = Inr s' \<and> is_I s' \<and> stream_index s' = 0
          \<and> stream_size s' = 2 \<and> iterator s' = iterator rule_sought)"
    by (simp add: at_sought)
  from seek_cases [of abc_done 7 rule_done] exhausted token_exhausted
  have ended: "stream_seek abc_done 7 = Inr abc_done
      \<and> token_stream_seek rule_done 7 = Inr rule_done"
    by (simp add: at_done)
  from seek_cases [of abc_made 1 rule_made] made token_made
  have pulled: "(\<exists>s'. stream_seek abc_made 1 = Inr s' \<and> is_I s' \<and> stream_index s' = 1
          \<and> stream_size s' = 2 \<and> int (pending s') = 1)
    \<and> (\<exists>s'. token_stream_seek rule_made 1 = Inr s' \<and> is_I s' \<and> stream_index s' = 1
          \<and> stream_size s' = 2 \<and> int (token_pending s') = 0)"
    by (simp add: at_made)
  from seek_cases [of abc_made 5 rule_made] made token_made
  have drained: "(\<exists>s'. stream_seek abc_made 5 = Inr s' \<and> stream_is_at_end s'
          \<and> stream_index s' = stream_size s' \<and> stream_size s' = 3
          \<and> li_is_at_end (iterator s'))
    \<and> (\<exists>s'. token_stream_seek rule_made 5 = Inr s' \<and> stream_is_at_end s'
          \<and> stream_index s' = stream_size s' \<and> stream_size s' = 2
          \<and> li_list (iterator s') = drop 2 rule_tokens)"
    by (simp add: at_made)
  from negative gone inside ended pulled drained show ?thesis by blast
qed

section \<open>The adapters have no start state\<close>

lemma initialize_buffer_first:
  assumes "li_list it = x # xs"
  shows "initialize_buffer \<lparr>buffer = fifo_make, iterator = it\<rparr>
    = Inr \<lparr>buffer = fifo_move_to_next (fifo_push x fifo_make),
           iterator = it\<lparr>li_is_at_start := False\<rparr>\<rparr>"
proof (cases "li_is_at_start it")
  case True
  then have "initialize_buffer \<lparr>buffer = fifo_make, iterator = it\<rparr>
    = initialize_buffer \<lparr>buffer = fifo_make, iterator = it\<lparr>li_is_at_start := False\<rparr>\<rparr>"
    by (subst initialize_buffer.simps) (simp add: li_move_to_next_def)
  also have "\<dots> = Inr \<lparr>buffer = fifo_move_to_next (fifo_push x fifo_make),
           iterator = it\<lparr>li_is_at_start := False\<rparr>\<rparr>"
    using assms
    by (subst initialize_buffer.simps)
      (simp add: li_has_current_item_def li_current_item_def subscript_def)
  finally show ?thesis .
next
  case False
  then have "it\<lparr>li_is_at_start := False\<rparr> = it" by simp
  with False assms show ?thesis
    by (subst initialize_buffer.simps)
      (simp add: li_has_current_item_def li_current_item_def subscript_def)
qed

lemma token_initialize_buffer_first:
  assumes "li_list it = t # ts"
  shows "token_initialize_buffer \<lparr>buffer = fifo_make, iterator = it\<rparr>
    = Inr \<lparr>buffer = (if type' t \<noteq> EOF then fifo_move_to_next (fifo_push t fifo_make)
                     else fifo_move_to_next fifo_make),
           iterator = it\<lparr>li_is_at_start := False\<rparr>\<rparr>"
proof (cases "li_is_at_start it")
  case True
  then have "token_initialize_buffer \<lparr>buffer = fifo_make, iterator = it\<rparr>
    = token_initialize_buffer \<lparr>buffer = fifo_make, iterator = it\<lparr>li_is_at_start := False\<rparr>\<rparr>"
    by (subst token_initialize_buffer.simps) (simp add: li_move_to_next_def)
  also have "\<dots> = Inr \<lparr>buffer = (if type' t \<noteq> EOF then fifo_move_to_next (fifo_push t fifo_make)
                     else fifo_move_to_next fifo_make),
           iterator = it\<lparr>li_is_at_start := False\<rparr>\<rparr>"
    using assms
    by (subst token_initialize_buffer.simps)
      (simp add: iterator_is_at_eof_token_def li_current_item_def subscript_def)
  finally show ?thesis .
next
  case False
  then have "it\<lparr>li_is_at_start := False\<rparr> = it" by simp
  with False assms show ?thesis
    by (subst token_initialize_buffer.simps)
      (simp add: iterator_is_at_eof_token_def li_current_item_def subscript_def)
qed

lemma first_buffered:
  "is_I \<lparr>buffer = fifo_move_to_next (fifo_push x fifo_make), iterator = it\<rparr>"
  "stream_index \<lparr>buffer = fifo_move_to_next (fifo_push x fifo_make), iterator = it\<rparr> = 0"
  "stream_has_current_item \<lparr>buffer = fifo_move_to_next (fifo_push x fifo_make), iterator = it\<rparr>"
  "stream_current_item \<lparr>buffer = fifo_move_to_next (fifo_push x fifo_make), iterator = it\<rparr>
     = Inr x"
  by (simp_all add: is_I_def stream_index_def stream_has_current_item_def
      stream_current_item_def fifo_has_current_item_def fifo_current_item_def
      fifo_move_to_next_def fifo_push_def fifo_make_def fifo_count_def
      fifo_current_global_index_def subscript_def)

lemma nothing_buffered:
  "is_EE \<lparr>buffer = fifo_move_to_next fifo_make, iterator = it\<rparr>"
  "\<not> stream_has_current_item \<lparr>buffer = fifo_move_to_next fifo_make, iterator = it\<rparr>"
  "stream_index \<lparr>buffer = fifo_move_to_next fifo_make, iterator = it\<rparr> = 0"
  "stream_size \<lparr>buffer = fifo_move_to_next fifo_make, iterator = it\<rparr> = 0"
  by (simp_all add: is_EE_def is_I_def stream_index_def stream_has_current_item_def
      stream_is_at_end_def fifo_is_at_end_def fifo_is_empty_def stream_size_def
      fifo_global_count_def fifo_has_current_item_def
      fifo_move_to_next_def fifo_make_def fifo_count_def)

text \<open>
  C10, as stated: an adapter built over a source with at least one item is immediately in
  state I with \<open>has_current_item\<close> true. The token variant does not buffer a token of type
  \<open>EOF\<close>: built over a source whose only item is that token, which is what a lexer gives
  for an empty input, it has no current item.
\<close>

theorem token_source_of_EOF_counterexample:
  "token_stream_make (ListIterator_make [\<lparr>type' = EOF, text' = str_of ''<EOF>''\<rparr>])
     = Inr \<lparr>buffer = \<lparr>fifo_items = [], fifo_started = True, fifo_position = 0,
                       fifo_discarded = 0, fifo_references = []\<rparr>,
            iterator = \<lparr>li_list = [\<lparr>type' = EOF, text' = str_of ''<EOF>''\<rparr>],
                        li_is_at_start = False\<rparr>\<rparr>
   \<and> \<not> stream_has_current_item
         \<lparr>buffer = \<lparr>fifo_items = [], fifo_started = True, fifo_position = 0,
                    fifo_discarded = 0, fifo_references = []\<rparr>,
          iterator = \<lparr>li_list = [\<lparr>type' = EOF, text' = str_of ''<EOF>''\<rparr>],
                      li_is_at_start = False\<rparr>\<rparr>"
  by code_simp

text \<open>
  C10, amended. \<open>is_at_start\<close> is \<open>False\<close> in every state of an adapter. The int and char
  adapter built over a source with at least one item left, and the token adapter built over
  a source whose first item is not the \<open>EOF\<close> token, are in state I with index 0 on that
  item. The token adapter built over a source whose first item is the \<open>EOF\<close> token is in
  state EE: at its end, with nothing buffered, index and size 0.
\<close>

theorem adapters_have_no_start_state:
  "\<not> stream_is_at_start s
   \<and> (li_list it \<noteq> [] \<longrightarrow>
        (\<exists>s'. stream_make it = Inr s' \<and> is_I s' \<and> stream_index s' = 0
           \<and> stream_has_current_item s' \<and> stream_current_item s' = Inr (hd (li_list it))))
   \<and> (li_list tokens \<noteq> [] \<and> type' (hd (li_list tokens)) \<noteq> EOF \<longrightarrow>
        (\<exists>s'. token_stream_make tokens = Inr s' \<and> is_I s' \<and> stream_index s' = 0
           \<and> stream_has_current_item s'
           \<and> stream_current_item s' = Inr (hd (li_list tokens))))
   \<and> (li_list tokens \<noteq> [] \<and> type' (hd (li_list tokens)) = EOF \<longrightarrow>
        (\<exists>s'. token_stream_make tokens = Inr s' \<and> is_EE s' \<and> stream_index s' = 0
           \<and> stream_size s' = 0 \<and> \<not> stream_has_current_item s'))"
proof -
  have "\<not> stream_is_at_start s" by (simp add: stream_is_at_start_def)
  moreover have "\<exists>s'. stream_make it = Inr s' \<and> is_I s' \<and> stream_index s' = 0
           \<and> stream_has_current_item s' \<and> stream_current_item s' = Inr (hd (li_list it))"
    if "li_list it \<noteq> []"
  proof -
    from that obtain x xs where "li_list it = x # xs" by (cases "li_list it") auto
    then show ?thesis
      by (simp add: stream_make_def initialize_buffer_first first_buffered)
  qed
  moreover have "\<exists>s'. token_stream_make tokens = Inr s' \<and> is_I s' \<and> stream_index s' = 0
           \<and> stream_has_current_item s'
           \<and> stream_current_item s' = Inr (hd (li_list tokens))"
    if "li_list tokens \<noteq> [] \<and> type' (hd (li_list tokens)) \<noteq> EOF"
  proof -
    from that obtain t ts where "li_list tokens = t # ts" by (cases "li_list tokens") auto
    with that show ?thesis
      by (simp add: token_stream_make_def token_initialize_buffer_first first_buffered)
  qed
  moreover have "\<exists>s'. token_stream_make tokens = Inr s' \<and> is_EE s' \<and> stream_index s' = 0
           \<and> stream_size s' = 0 \<and> \<not> stream_has_current_item s'"
    if "li_list tokens \<noteq> [] \<and> type' (hd (li_list tokens)) = EOF"
  proof -
    from that obtain t ts where "li_list tokens = t # ts" by (cases "li_list tokens") auto
    with that show ?thesis
      by (simp add: token_stream_make_def token_initialize_buffer_first nothing_buffered)
  qed
  ultimately show ?thesis by blast
qed

theorem adapters_have_no_start_state_witness:
  "(\<exists>s'. stream_make (ListIterator_make (str_of ''abc'')) = Inr s' \<and> is_I s'
      \<and> stream_index s' = 0 \<and> stream_has_current_item s' \<and> stream_current_item s' = Inr 97)
   \<and> (\<exists>s'. token_stream_make
             (ListIterator_make
                [\<lparr>type' = 1, text' = str_of ''all''\<rparr>, \<lparr>type' = EOF, text' = []\<rparr>]) = Inr s'
         \<and> is_I s' \<and> stream_index s' = 0 \<and> stream_has_current_item s'
         \<and> stream_current_item s' = Inr \<lparr>type' = 1, text' = str_of ''all''\<rparr>)
   \<and> (\<exists>s'. token_stream_make (ListIterator_make [\<lparr>type' = EOF, text' = []\<rparr>]) = Inr s'
         \<and> is_EE s' \<and> stream_index s' = 0 \<and> stream_size s' = 0
         \<and> \<not> stream_has_current_item s')"
  using adapters_have_no_start_state
      [of undefined "ListIterator_make (str_of ''abc'')"
        "ListIterator_make [\<lparr>type' = 1, text' = str_of ''all''\<rparr>, \<lparr>type' = EOF, text' = []\<rparr>]"]
    adapters_have_no_start_state
      [of undefined "ListIterator_make (str_of ''abc'')"
        "ListIterator_make [\<lparr>type' = EOF, text' = []\<rparr>]"]
  by (simp add: ListIterator_make_def str_of_def EOF_def) blast

end
